theory Spec2Isabelle
  imports Complex_Main "HOL-Library.Word" "HOL-Library.Sublist" "HOL-Library.Log_Nat"
begin

section \<open>JavaScript strings\<close>

text \<open>
  A JavaScript string is a sequence of UTF-16 code units: \<open>length\<close> counts them and
  \<open>substring\<close>, \<open>trim\<close> and the regular expressions of the source work on them.
  String literals of the source are all ASCII; \<open>str\<close> turns an Isabelle literal into
  the code units it denotes.
\<close>

type_synonym code_unit = "16 word"
type_synonym jsstring = "code_unit list"

definition str :: "string \<Rightarrow> jsstring" where
  "str s = map (\<lambda>c. of_nat (of_char c)) s"

text \<open>
  \<open>String.prototype.trim\<close> removes leading and trailing WhiteSpace and LineTerminator
  code points (ECMAScript, sections 12.2 and 12.3): TAB, LF, VT, FF, CR, SP, NBSP, the
  Unicode space separators, LS, PS and the byte order mark.
\<close>

definition js_whitespace :: "code_unit \<Rightarrow> bool" where
  "js_whitespace c \<longleftrightarrow>
     c \<in> {0x09, 0x0A, 0x0B, 0x0C, 0x0D, 0x20, 0xA0, 0x1680, 0x2000, 0x2001, 0x2002,
          0x2003, 0x2004, 0x2005, 0x2006, 0x2007, 0x2008, 0x2009, 0x200A, 0x2028,
          0x2029, 0x202F, 0x205F, 0x3000, 0xFEFF}"

definition trim :: "jsstring \<Rightarrow> jsstring" where
  "trim s = rev (dropWhile js_whitespace (rev (dropWhile js_whitespace s)))"

section \<open>The regular expression of the phone number check\<close>

text \<open>
  \<open>CreateReminder.jsx\<close> tests the phone number with \<^verbatim>\<open>/^\+\d{10,15}$/\<close>. The expression
  is kept as data: a sequence of items, each one atom or an atom repeated between
  \<open>m\<close> and \<open>n\<close> times, matched against the whole input (\<^verbatim>\<open>^\<close> and \<^verbatim>\<open>$\<close> without the
  \<open>m\<close> flag anchor at the two ends of the input). \<^verbatim>\<open>\d\<close> is \<^verbatim>\<open>[0-9]\<close>.
\<close>

datatype re_atom = Lit code_unit | Digit

datatype re_item = One re_atom | Between re_atom nat nat

fun atom_matches :: "re_atom \<Rightarrow> code_unit \<Rightarrow> bool" where
  "atom_matches (Lit a) c = (c = a)"
| "atom_matches Digit c = (0x30 \<le> c \<and> c \<le> 0x39)"

fun re_test :: "re_item list \<Rightarrow> jsstring \<Rightarrow> bool" where
  "re_test [] s = (s = [])"
| "re_test (One a # items) s =
     (case s of [] \<Rightarrow> False | c # cs \<Rightarrow> atom_matches a c \<and> re_test items cs)"
| "re_test (Between a m n # items) s =
     list_ex (\<lambda>k. k \<le> length s \<and> list_all (atom_matches a) (take k s)
                 \<and> re_test items (drop k s)) [m ..< Suc n]"

definition phone_regex :: "re_item list" where
  "phone_regex = [One (Lit 0x2B), Between Digit 10 15]"

section \<open>CreateReminder: validateForm and handleSubmit\<close>

record formData =
  user_id :: jsstring
  phone_number :: jsstring
  message :: jsstring
  scheduled_date :: jsstring
  scheduled_time :: jsstring

text \<open>The \<open>newErrors\<close> object: a field is \<open>None\<close> while the key is absent.\<close>

record form_errors =
  err_user_id :: "string option"
  err_phone_number :: "string option"
  err_message :: "string option"
  err_scheduled_date :: "string option"
  err_scheduled_time :: "string option"

definition no_errors :: form_errors where
  "no_errors = \<lparr>err_user_id = None, err_phone_number = None, err_message = None,
                 err_scheduled_date = None, err_scheduled_time = None\<rparr>"

definition phone_number_error :: "jsstring \<Rightarrow> string option" where
  "phone_number_error p =
     (if p = [] then Some ''Phone number is required''
      else if \<not> re_test phone_regex p then Some ''Use international format: +1234567890''
      else None)"

definition message_error :: "jsstring \<Rightarrow> string option" where
  "message_error m =
     (if trim m = [] then Some ''Message is required''
      else if length m < 5 then Some ''Message must be at least 5 characters''
      else None)"

text \<open>
  \<open>new Date(`${date}T${time}`)\<close> and \<open>new Date()\<close> belong to the runtime. The parser is a
  parameter \<open>parseDate\<close> giving the time value in milliseconds, \<open>None\<close> for an Invalid
  Date (time value NaN); \<open>now\<close> is the time value of \<open>new Date()\<close>. A comparison
  \<open>scheduledAt <= new Date()\<close> with NaN on the left is false.
\<close>

definition scheduledAt :: "(jsstring \<Rightarrow> int option) \<Rightarrow> formData \<Rightarrow> int option" where
  "scheduledAt parseDate fd = parseDate (scheduled_date fd @ str ''T'' @ scheduled_time fd)"

definition scheduled_date_error :: "(jsstring \<Rightarrow> int option) \<Rightarrow> int \<Rightarrow> formData \<Rightarrow> string option" where
  "scheduled_date_error parseDate now fd =
     (let e = (if scheduled_date fd = [] then Some ''Date is required'' else None)
      in if scheduled_date fd \<noteq> [] \<and> scheduled_time fd \<noteq> [] then
           (case scheduledAt parseDate fd of
              Some t \<Rightarrow> if t \<le> now then Some ''Scheduled time must be in the future'' else e
            | None \<Rightarrow> e)
         else e)"

definition newErrors :: "(jsstring \<Rightarrow> int option) \<Rightarrow> int \<Rightarrow> formData \<Rightarrow> form_errors" where
  "newErrors parseDate now fd =
     \<lparr>err_user_id = (if user_id fd = [] then Some ''Please select a user'' else None),
      err_phone_number = phone_number_error (phone_number fd),
      err_message = message_error (message fd),
      err_scheduled_date = scheduled_date_error parseDate now fd,
      err_scheduled_time = (if scheduled_time fd = [] then Some ''Time is required'' else None)\<rparr>"

text \<open>\<open>validateForm\<close> stores the errors and returns \<open>Object.keys(newErrors).length === 0\<close>.\<close>

definition validateForm :: "(jsstring \<Rightarrow> int option) \<Rightarrow> int \<Rightarrow> formData \<Rightarrow> form_errors \<times> bool" where
  "validateForm parseDate now fd =
     (let e = newErrors parseDate now fd in (e, e = no_errors))"

text \<open>
  \<open>handleSubmit\<close> returns without a request when \<open>validateForm\<close> is false. Otherwise it
  builds the payload; \<open>toISOString\<close> of an Invalid Date throws a RangeError, which the
  \<open>catch\<close> turns into an error toast, and no request is sent either.
\<close>

datatype submit_outcome =
    Rejected form_errors
  | Threw
  | Submitted jsstring jsstring jsstring int

definition handleSubmit :: "(jsstring \<Rightarrow> int option) \<Rightarrow> int \<Rightarrow> formData \<Rightarrow> submit_outcome" where
  "handleSubmit parseDate now fd =
     (case validateForm parseDate now fd of
        (e, False) \<Rightarrow> Rejected e
      | (e, True) \<Rightarrow>
          (case scheduledAt parseDate fd of
             None \<Rightarrow> Threw
           | Some t \<Rightarrow> Submitted (user_id fd) (phone_number fd) (message fd) t))"

text \<open>
  The shape the specification asks of a phone number, in its own words: a leading \<open>+\<close>
  followed by 10 to 15 digits.
\<close>

definition is_digit :: "code_unit \<Rightarrow> bool" where
  "is_digit c \<longleftrightarrow> c \<in> {0x30 .. 0x39}"

definition plus_then_10_to_15_digits :: "jsstring \<Rightarrow> bool" where
  "plus_then_10_to_15_digits s \<longleftrightarrow>
     (case s of
        [] \<Rightarrow> False
      | c # ds \<Rightarrow> c = 0x2B \<and> 10 \<le> length ds \<and> length ds \<le> 15 \<and> list_all is_digit ds)"

definition example_form :: "jsstring \<Rightarrow> jsstring \<Rightarrow> formData" where
  "example_form phone msg =
     \<lparr>user_id = str ''7'', phone_number = phone, message = msg,
      scheduled_date = str ''2030-01-01'', scheduled_time = str ''09:00''\<rparr>"

section \<open>ReminderNotifications: the polling consumer of the notification feed\<close>

text \<open>
  One entry of \<open>data.notifications\<close>. \<open>reminder_id\<close>, \<open>status\<close> and \<open>updated_at\<close> are held as
  the strings the template literal of \<open>notifId\<close> makes of them. \<open>notif_message\<close> is
  \<open>None\<close> when \<open>notification.message\<close> is null or undefined (then \<open>substring\<close> throws a
  TypeError); \<open>transcript\<close> is \<open>notification.latest_log?.transcript\<close>, \<open>None\<close> when the
  log or its transcript is missing.
\<close>

record notification =
  reminder_id :: jsstring
  status :: jsstring
  updated_at :: jsstring
  notif_message :: "jsstring option"
  transcript :: "jsstring option"

definition notifId :: "notification \<Rightarrow> jsstring" where
  "notifId n = reminder_id n @ str ''-'' @ status n @ str ''-'' @ updated_at n"

text \<open>
  The calls made on \<open>react-hot-toast\<close>, in the order they are issued. The first argument
  of the first three is the toast id (the reminder id), the second the first 50 code
  units of the message, which the source wraps in a fixed text. \<open>ToastTranscript\<close> is
  the plain \<open>toast(transcript)\<close> that a 500 ms timer issues after a success toast.
\<close>

datatype toast =
    ToastLoading jsstring jsstring
  | ToastSuccess jsstring jsstring
  | ToastError jsstring jsstring
  | ToastTranscript jsstring

text \<open>The \<open>switch (notification.status)\<close>; \<open>scheduled\<close> and \<open>default\<close> only log.\<close>

definition show_toast :: "notification \<Rightarrow> jsstring \<Rightarrow> toast list" where
  "show_toast n msg =
     (if status n = str ''processing'' then [ToastLoading (reminder_id n) msg]
      else if status n = str ''called'' then
        ToastSuccess (reminder_id n) msg #
          (case transcript n of
             Some t \<Rightarrow> if t \<noteq> [] then [ToastTranscript t] else []
           | None \<Rightarrow> [])
      else if status n = str ''failed'' then [ToastError (reminder_id n) msg]
      else if status n = str ''scheduled'' then []
      else [])"

text \<open>
  The body of the \<open>forEach\<close> callback. Its \<open>processedIds\<close> is the constant captured by
  \<open>useCallback\<close>: the value of the state at the render that created the callback.
  \<open>setProcessedIds\<close> queues an update and does not change that constant. The result
  says whether the notification was skipped, was marked and shown, or was marked and
  then threw at \<open>notification.message.substring\<close>.
\<close>

datatype handled = Skipped | Marked jsstring "toast list" | MarkedThenThrew jsstring

definition handle_notification :: "jsstring list \<Rightarrow> notification \<Rightarrow> handled" where
  "handle_notification processedIds n =
     (if notifId n \<in> set processedIds then Skipped
      else case notif_message n of
             None \<Rightarrow> MarkedThenThrew (notifId n)
           | Some m \<Rightarrow> Marked (notifId n) (show_toast n (take 50 m)))"

text \<open>
  \<open>data.notifications.forEach\<close>: the keys handed to \<open>setProcessedIds\<close> and the toasts
  issued, both in order, and whether the loop ran to its end (an exception leaves it
  and is caught by the \<open>catch\<close> of \<open>checkForUpdates\<close>).
\<close>

fun forEach :: "jsstring list \<Rightarrow> notification list \<Rightarrow> jsstring list \<times> toast list \<times> bool" where
  "forEach processedIds [] = ([], [], True)"
| "forEach processedIds (n # ns) =
     (case handle_notification processedIds n of
        Skipped \<Rightarrow> forEach processedIds ns
      | MarkedThenThrew k \<Rightarrow> ([k], [], False)
      | Marked k ts \<Rightarrow>
          (case forEach processedIds ns of (ks, ts', done) \<Rightarrow> (k # ks, ts @ ts', done)))"

text \<open>
  The component's state. A JavaScript \<open>Set\<close> iterates in insertion order, so
  \<open>processedIds\<close> is the list of its elements in that order, without repetition.
  \<open>toasts\<close> is the log of toast calls made so far.
\<close>

record consumer =
  processedIds :: "jsstring list"
  toasts :: "toast list"

definition initial :: consumer where
  "initial = \<lparr>processedIds = [], toasts = []\<rparr>"

text \<open>The queued update \<open>prev => new Set([...prev, notifId])\<close>.\<close>

definition set_add :: "jsstring list \<Rightarrow> jsstring \<Rightarrow> jsstring list" where
  "set_add prev k = (if k \<in> set prev then prev else prev @ [k])"

datatype fetch_result = FetchFailed | NotOk | Json "notification list"

text \<open>
  \<open>checkForUpdates\<close>, for a callback whose captured \<open>processedIds\<close> is \<open>captured\<close>, run on
  the state \<open>st\<close> with the outcome of the fetch. The queued updates are applied to the
  current state in order. The second component says whether \<open>setProcessedIds\<close> was
  called, that is whether the state object changed. (\<open>lastPollTime\<close> is never read and
  \<open>onUpdate\<close> is not passed by \<open>App\<close>; both are left out.)
\<close>

definition checkForUpdates :: "jsstring list \<Rightarrow> fetch_result \<Rightarrow> consumer \<Rightarrow> consumer \<times> bool" where
  "checkForUpdates captured r st =
     (case r of
        FetchFailed \<Rightarrow> (st, False)
      | NotOk \<Rightarrow> (st, False)
      | Json ns \<Rightarrow>
          (case forEach captured ns of
             (ks, ts, done) \<Rightarrow>
               (\<lparr>processedIds = foldl set_add (processedIds st) ks, toasts = toasts st @ ts\<rparr>,
                ks \<noteq> [])))"

text \<open>
  The effect on \<open>[processedIds]\<close>: \<open>if (size > 100) setProcessedIds(new Set(arr.slice(-100)))\<close>.
\<close>

definition cleanup :: "consumer \<Rightarrow> consumer" where
  "cleanup st =
     (if length (processedIds st) > 100
      then st\<lparr>processedIds := drop (length (processedIds st) - 100) (processedIds st)\<rparr>
      else st)"

text \<open>
  The mounted component. \<open>checkForUpdates\<close> is rebuilt by \<open>useCallback\<close> whenever
  \<open>processedIds\<close> changes, and the polling effect depends on it: after every render
  with a new \<open>processedIds\<close> the effect clears the interval, calls the new callback
  at once and sets a new interval. The trim effect is declared after the polling
  effect, so it runs after that call; when it trims, the state changes again and the
  polling effect runs once more. Hence several fetches can be awaited at the same
  time, each to be handled by the callback that sent it, with the keys that callback
  captured. \<open>in_flight\<close> lists the captured keys of the fetches awaited, in the order
  they were sent.
\<close>

record component =
  current :: consumer
  in_flight :: "jsstring list list"

text \<open>
  What the effects do after a render with a changed \<open>processedIds\<close>: the state they
  leave and the fetches they send. The first fetch captures the state as rendered;
  if the trim changes the state, a second fetch captures the trimmed state.
\<close>

definition effects :: "consumer \<Rightarrow> consumer \<times> jsstring list list" where
  "effects st =
     (if length (processedIds st) > 100
      then (cleanup st, [processedIds st, processedIds (cleanup st)])
      else (st, [processedIds st]))"

definition remove_nth :: "nat \<Rightarrow> 'a list \<Rightarrow> 'a list" where
  "remove_nth i xs = take i xs @ drop (Suc i) xs"

text \<open>
  The events of the component's life. \<open>Tick\<close>: the interval fires and the callback of
  the latest render sends a fetch. \<open>Response i r\<close>: the fetch at position \<open>i\<close> of
  \<open>in_flight\<close> ends with outcome \<open>r\<close> and its callback handles it; the queued updates
  are applied to the current state; if \<open>setProcessedIds\<close> was called the component
  renders again and the effects run. The render and its effects are taken to be
  complete before the next event. (The double run of effects under \<open>StrictMode\<close> in
  development builds is not modelled.)
\<close>

datatype event = Tick | Response nat fetch_result

definition step :: "event \<Rightarrow> component \<Rightarrow> component" where
  "step e c =
     (case e of
        Tick \<Rightarrow> c\<lparr>in_flight := in_flight c @ [processedIds (current c)]\<rparr>
      | Response i r \<Rightarrow>
          if i < length (in_flight c) then
            (case checkForUpdates (in_flight c ! i) r (current c) of
               (st, changed) \<Rightarrow>
                 if changed
                 then (case effects st of
                         (st', sent) \<Rightarrow>
                           \<lparr>current = st', in_flight = remove_nth i (in_flight c) @ sent\<rparr>)
                 else \<lparr>current = st, in_flight = remove_nth i (in_flight c)\<rparr>)
          else c)"

text \<open>
  Mounting renders with the empty set and sends the initial check. \<open>run\<close> is the
  component after a sequence of events from mounting.
\<close>

definition mount :: component where
  "mount = \<lparr>current = initial, in_flight = [[]]\<rparr>"

definition run :: "event list \<Rightarrow> component" where
  "run es = foldl (\<lambda>c e. step e c) mount es"

text \<open>
  The keys in the state once the callback that captured \<open>captured\<close> has handled the
  outcome \<open>r\<close>, before the trim.
\<close>

definition recorded :: "jsstring list \<Rightarrow> fetch_result \<Rightarrow> consumer \<Rightarrow> jsstring list" where
  "recorded captured r st = processedIds (fst (checkForUpdates captured r st))"





text \<open>Notifications used as examples.\<close>

definition example_notification :: "string \<Rightarrow> string \<Rightarrow> notification" where
  "example_notification rid st =
     \<lparr>reminder_id = str rid, status = str st, updated_at = str ''2025-12-24T10:00:00'',
      notif_message = Some (str ''Take your pill''), transcript = None\<rparr>"

definition numbered_notification :: "nat \<Rightarrow> notification" where
  "numbered_notification i =
     \<lparr>reminder_id = [0x30 + of_nat (i div 100), 0x30 + of_nat (i div 10 mod 10), 0x30 + of_nat (i mod 10)],
      status = str ''failed'', updated_at = str ''t'',
      notif_message = Some (str ''m''), transcript = None\<rparr>"

text \<open>The statuses for which the \<open>switch\<close> issues a toast.\<close>

definition toast_statuses :: "jsstring set" where
  "toast_statuses = {str ''processing'', str ''called'', str ''failed''}"

section \<open>StatusBadge\<close>

text \<open>
  \<open>StatusBadge\<close> is defined twice, with the same text, in \<open>Dashboard.jsx\<close> and in the
  reminder list page. \<open>config\<close> is an object literal with four own properties.
\<close>

datatype lucide_icon = Clock | Loader2 | CheckCircle | XCircle

record badge_config =
  icon :: lucide_icon
  className :: string
  label :: string

definition config :: "jsstring \<Rightarrow> badge_config option" where
  "config key =
     (if key = str ''scheduled'' then
        Some \<lparr>icon = Clock, className = ''status-scheduled'', label = ''Scheduled''\<rparr>
      else if key = str ''processing'' then
        Some \<lparr>icon = Loader2, className = ''status-processing'', label = ''Processing''\<rparr>
      else if key = str ''called'' then
        Some \<lparr>icon = CheckCircle, className = ''status-called'', label = ''Called''\<rparr>
      else if key = str ''failed'' then
        Some \<lparr>icon = XCircle, className = ''status-failed'', label = ''Failed''\<rparr>
      else None)"

text \<open>
  \<open>config[status]\<close> is an ordinary property read: a name that is not an own property
  is looked up along the prototype chain, and the prototype of an object literal is
  \<open>Object.prototype\<close>. Its property names (ECMAScript, sections 20.1.3 and B.2.2) are
  listed here; the values are functions, and for \<open>__proto__\<close> the prototype object
  itself: all truthy, and none has a property \<open>icon\<close>, \<open>class\<close> or \<open>label\<close>.
\<close>

definition object_prototype_keys :: "jsstring list" where
  "object_prototype_keys =
     map str [''constructor'', ''hasOwnProperty'', ''isPrototypeOf'', ''propertyIsEnumerable'',
              ''toLocaleString'', ''toString'', ''valueOf'', ''__proto__'',
              ''__defineGetter__'', ''__defineSetter__'', ''__lookupGetter__'',
              ''__lookupSetter__'']"

datatype js_value = Undefined | Config badge_config | Inherited jsstring

definition config_get :: "jsstring \<Rightarrow> js_value" where
  "config_get s =
     (case config s of
        Some c \<Rightarrow> Config c
      | None \<Rightarrow> if s \<in> set object_prototype_keys then Inherited s else Undefined)"

text \<open>
  The element \<open>StatusBadge\<close> returns for the property \<open>status\<close>, here \<open>s\<close>.
  \<open>config[status] || config.scheduled\<close> takes the second operand only when the first
  is falsy, here \<open>undefined\<close>. Destructuring an
  inherited value gives \<open>undefined\<close> for \<open>Icon\<close>, and React throws on rendering an
  element whose type is \<open>undefined\<close> (``Element type is invalid'').
\<close>

record rendered_badge =
  span_class :: string
  badge_icon :: lucide_icon
  icon_spins :: bool
  badge_label :: string

datatype render_error = ElementTypeInvalid

definition StatusBadge :: "jsstring \<Rightarrow> render_error + rendered_badge" where
  "StatusBadge s =
     (let chosen = (case config_get s of
                      Undefined \<Rightarrow> config_get (str ''scheduled'')
                    | v \<Rightarrow> v)
      in case chosen of
           Config c \<Rightarrow>
             Inr \<lparr>span_class = className c, badge_icon = icon c,
                  icon_spins = (s = str ''processing''), badge_label = label c\<rparr>
         | Inherited k \<Rightarrow> Inl ElementTypeInvalid
         | Undefined \<Rightarrow> Inl ElementTypeInvalid)"

section \<open>Dashboard: the success rate\<close>

text \<open>
  JavaScript numbers are IEEE 754 binary64 values. A finite double is modelled by the
  rational number it denotes, and \<open>fl\<close> rounds a rational to the nearest double, ties
  to the even significand: the result has 53 significant bits. The bounds of the
  exponent are left out, so \<open>fl\<close> is the rounding of the standard for results that
  neither overflow nor are subnormal, which holds for the quotients and products
  of counts met here. \<open>binade x\<close> is the exponent of the power of two at or below
  \<open>x > 0\<close>.
\<close>

definition round_half_even :: "rat \<Rightarrow> int" where
  "round_half_even x =
     (let f = \<lfloor>x\<rfloor>; r = x - of_int f
      in if r < 1/2 then f else if 1/2 < r then f + 1 else if even f then f else f + 1)"

definition binade :: "rat \<Rightarrow> int" where
  "binade x =
     (case quotient_of x of
        (p, q) \<Rightarrow> let k = bitlen p - bitlen q in if 2 powi k \<le> x then k else k - 1)"

definition fl :: "rat \<Rightarrow> rat" where
  "fl x =
     (if x = 0 then 0
      else let e = binade \<bar>x\<bar> - 52
           in sgn x * of_int (round_half_even (\<bar>x\<bar> / 2 powi e)) * 2 powi e)"

text \<open>\<open>Math.round\<close>: the nearest integer, a tie going up.\<close>

definition Math_round :: "rat \<Rightarrow> int" where
  "Math_round x = \<lfloor>x + 1/2\<rfloor>"

text \<open>
  The fields of \<open>stats\<close> that the success rate reads, as the numbers \<open>JSON.parse\<close> made
  of them (\<open>total_stats\<close> is \<open>stats.total\<close>); \<open>stats\<close> itself is \<open>null\<close> until the fetch
  has succeeded.
\<close>

record stats =
  total_stats :: rat
  called :: rat

text \<open>
  \<open>stats?.total > 0 ? Math.round((stats.called / stats.total) * 100) : 0\<close>. The second
  component lists the divisors of the divisions that were evaluated.
\<close>

definition success_rate :: "stats option \<Rightarrow> int \<times> rat list" where
  "success_rate s =
     (case s of
        None \<Rightarrow> (0, [])
      | Some st \<Rightarrow>
          if total_stats st > 0
          then (Math_round (fl (fl (called st / total_stats st) * 100)), [total_stats st])
          else (0, []))"

section \<open>The claim of a due reminder\<close>

text \<open>
  Modelled from the spec: the reminder store and its conditional claim update belong
  to the worker service, which is not among the sources. The specification
  (sections 3, 4.1, 5 and 9) describes the claim as a single conditioned update,
  ``set status=processing where status=scheduled'', returning whether a row changed,
  and as atomic. Concurrent attempts are therefore modelled as atomic steps taken
  in some order, one list of attempts for each interleaving.
\<close>

datatype reminder_status = Scheduled | Processing | Called | Failed

record reminder =
  rem_status :: reminder_status
  scheduled_at :: int

type_synonym store = "nat \<Rightarrow> reminder option"

definition claim :: "nat \<Rightarrow> store \<Rightarrow> store \<times> bool" where
  "claim rid s =
     (case s rid of
        None \<Rightarrow> (s, False)
      | Some r \<Rightarrow>
          if rem_status r = Scheduled
          then (s(rid \<mapsto> r\<lparr>rem_status := Processing\<rparr>), True)
          else (s, False))"

text \<open>
  A sequence of claim attempts, each on the reminder it names, with the outcome of
  each attempt in the same order.
\<close>

fun claims :: "nat list \<Rightarrow> store \<Rightarrow> store \<times> bool list" where
  "claims [] s = (s, [])"
| "claims (rid # rids) s =
     (case claim rid s of
        (s', ok) \<Rightarrow> (case claims rids s' of (s'', oks) \<Rightarrow> (s'', ok # oks)))"

text \<open>The number of attempts on reminder \<open>rid\<close> with outcome \<open>ok\<close>.\<close>

definition outcomes :: "nat \<Rightarrow> bool \<Rightarrow> nat list \<Rightarrow> store \<Rightarrow> nat" where
  "outcomes rid ok rids s = count_list (zip rids (snd (claims rids s))) (rid, ok)"

definition due :: "int \<Rightarrow> reminder \<Rightarrow> bool" where
  "due now r \<longleftrightarrow> rem_status r = Scheduled \<and> scheduled_at r \<le> now"

text \<open>A claim on \<open>rid\<close> can succeed: the reminder exists and is still scheduled.\<close>

definition claimable :: "store \<Rightarrow> nat \<Rightarrow> bool" where
  "claimable s rid = (case s rid of None \<Rightarrow> False | Some r \<Rightarrow> rem_status r = Scheduled)"

definition example_store :: store where
  "example_store = Map.empty(7 \<mapsto> \<lparr>rem_status = Scheduled, scheduled_at = 10\<rparr>)"

section \<open>Properties of validateForm\<close>

lemma between_last:
  "re_test [Between a m n] s \<longleftrightarrow>
     m \<le> length s \<and> length s \<le> n \<and> (\<forall>c \<in> set s. atom_matches a c)"
  by (auto simp: list_ex_iff list_all_iff)

lemma phone_regex_shape: "re_test phone_regex p = plus_then_10_to_15_digits p"
  unfolding phone_regex_def plus_then_10_to_15_digits_def
  by (cases p) (auto simp: between_last is_digit_def list_all_iff simp del: re_test.simps(3))

lemma phone_number_error_None:
  "phone_number_error p = None \<longleftrightarrow> plus_then_10_to_15_digits p"
  by (auto simp: phone_number_error_def phone_regex_shape plus_then_10_to_15_digits_def)

lemma validate_fst: "fst (validateForm pd now fd) = newErrors pd now fd"
  by (simp add: validateForm_def Let_def)

lemma validate_snd: "snd (validateForm pd now fd) \<longleftrightarrow> newErrors pd now fd = no_errors"
  by (simp add: validateForm_def Let_def)

lemma rejected:
  "snd (validateForm pd now fd) = False \<Longrightarrow>
     handleSubmit pd now fd = Rejected (fst (validateForm pd now fd))"
  by (cases "validateForm pd now fd") (auto simp: handleSubmit_def)

text \<open>
  C4, as stated: every message that is non-empty after trimming passes. It fails:
  the message \<open>Hi\<close> is non-empty after trimming and gets the error of the second
  branch, \<open>message.length < 5\<close>.
\<close>

theorem C4_short_message_rejected:
  "trim (str ''Hi'') \<noteq> []
   \<and> err_message (fst (validateForm (\<lambda>_. None) 0 (example_form (str ''+1234567890'') (str ''Hi''))))
       = Some ''Message must be at least 5 characters''"
  by (simp add: validateForm_def newErrors_def message_error_def trim_def str_def
        js_whitespace_def example_form_def Let_def)

text \<open>
  C4, amended: \<open>validateForm\<close> records no message error exactly when the message is
  non-empty after trimming and has at least 5 code units (counted before trimming).
  No upper bound is checked.
\<close>

theorem C4_message_accepted_iff:
  "err_message (fst (validateForm pd now fd)) = None
     \<longleftrightarrow> trim (message fd) \<noteq> [] \<and> 5 \<le> length (message fd)"
  by (auto simp: validateForm_def newErrors_def message_error_def Let_def)

theorem C4_message_accepted_iff_witness:
  "trim (str ''Take your pill'') \<noteq> [] \<and> 5 \<le> length (str ''Take your pill'')
   \<and> err_message (fst (validateForm (\<lambda>_. None) 0
        (example_form (str ''+1234567890'') (str ''Take your pill'')))) = None"
  using C4_message_accepted_iff [of "\<lambda>_. None" 0 "example_form (str ''+1234567890'') (str ''Take your pill'')"]
  by (simp add: example_form_def trim_def str_def js_whitespace_def)

text \<open>
  C5: \<open>validateForm\<close> records no phone number error if and only if the phone number is a
  \<open>+\<close> followed by 10 to 15 digits; for every other string it records one, returns
  false, and \<open>handleSubmit\<close> sends nothing.
\<close>

theorem C5_phone_number_validation:
  "(err_phone_number (fst (validateForm pd now fd)) = None
      \<longleftrightarrow> plus_then_10_to_15_digits (phone_number fd))
   \<and> (\<not> plus_then_10_to_15_digits (phone_number fd) \<longrightarrow>
        \<not> snd (validateForm pd now fd)
        \<and> (\<exists>e. handleSubmit pd now fd = Rejected e \<and> err_phone_number e \<noteq> None))"
proof -
  have a: "err_phone_number (newErrors pd now fd) = phone_number_error (phone_number fd)"
    by (simp add: newErrors_def)
  have b: "\<not> plus_then_10_to_15_digits (phone_number fd) \<Longrightarrow> newErrors pd now fd \<noteq> no_errors"
    using a phone_number_error_None[of "phone_number fd"] by (auto simp: no_errors_def)
  show ?thesis
    using a b rejected[of pd now fd] phone_number_error_None[of "phone_number fd"]
    by (auto simp: validate_fst validate_snd)
qed

theorem C5_phone_number_validation_witness:
  "\<not> plus_then_10_to_15_digits (str ''1234567890'')
   \<and> (\<exists>e. handleSubmit (\<lambda>_. Some 10) 5 (example_form (str ''1234567890'') (str ''Take your pill''))
             = Rejected e \<and> err_phone_number e \<noteq> None)
   \<and> plus_then_10_to_15_digits (str ''+1234567890'')
   \<and> err_phone_number (fst (validateForm (\<lambda>_. Some 10) 5
        (example_form (str ''+1234567890'') (str ''Take your pill'')))) = None"
  using C5_phone_number_validation [of "\<lambda>_. Some 10" 5 "example_form (str ''1234567890'') (str ''Take your pill'')"]
    C5_phone_number_validation [of "\<lambda>_. Some 10" 5 "example_form (str ''+1234567890'') (str ''Take your pill'')"]
  by (simp add: plus_then_10_to_15_digits_def is_digit_def str_def example_form_def)

text \<open>
  C6: when the date and the time are both given and combine to a time \<open>t\<close>, then for
  \<open>t\<close> at or before the current time \<open>validateForm\<close> records the scheduled_date error,
  returns false and nothing is submitted, and for \<open>t\<close> strictly later it records no
  scheduled_date error.
\<close>

theorem C6_scheduled_in_future:
  "scheduled_date fd \<noteq> [] \<and> scheduled_time fd \<noteq> [] \<and> scheduledAt pd fd = Some t \<longrightarrow>
     (t \<le> now \<longrightarrow>
        err_scheduled_date (fst (validateForm pd now fd)) = Some ''Scheduled time must be in the future''
        \<and> \<not> snd (validateForm pd now fd)
        \<and> handleSubmit pd now fd = Rejected (fst (validateForm pd now fd)))
   \<and> (now < t \<longrightarrow> err_scheduled_date (fst (validateForm pd now fd)) = None)"
proof -
  have a: "err_scheduled_date (newErrors pd now fd) = scheduled_date_error pd now fd"
    by (simp add: newErrors_def)
  have b: "err_scheduled_date (newErrors pd now fd) \<noteq> None \<Longrightarrow> newErrors pd now fd \<noteq> no_errors"
    by (auto simp: no_errors_def)
  show ?thesis
    using a b rejected[of pd now fd]
    by (auto simp: validate_fst validate_snd scheduled_date_error_def Let_def)
qed

theorem C6_scheduled_in_future_witness:
  "scheduled_date (example_form (str ''+1234567890'') (str ''Take your pill'')) \<noteq> []
   \<and> scheduled_time (example_form (str ''+1234567890'') (str ''Take your pill'')) \<noteq> []
   \<and> (5::int) \<le> 5 \<and> (5::int) < 6
   \<and> err_scheduled_date (fst (validateForm (\<lambda>_. Some 5) 5
        (example_form (str ''+1234567890'') (str ''Take your pill''))))
       = Some ''Scheduled time must be in the future''
   \<and> handleSubmit (\<lambda>_. Some 5) 5 (example_form (str ''+1234567890'') (str ''Take your pill''))
       = Rejected (fst (validateForm (\<lambda>_. Some 5) 5
           (example_form (str ''+1234567890'') (str ''Take your pill''))))
   \<and> err_scheduled_date (fst (validateForm (\<lambda>_. Some 6) 5
        (example_form (str ''+1234567890'') (str ''Take your pill'')))) = None"
  using C6_scheduled_in_future [of "example_form (str ''+1234567890'') (str ''Take your pill'')" "\<lambda>_. Some 5" 5 5]
    C6_scheduled_in_future [of "example_form (str ''+1234567890'') (str ''Take your pill'')" "\<lambda>_. Some 6" 6 5]
  by (simp add: scheduledAt_def str_def example_form_def)

section \<open>Properties of the notification consumer\<close>

subsection \<open>The set of processed keys\<close>

lemma cleanup_drop:
  "processedIds (cleanup st) = drop (length (processedIds st) - 100) (processedIds st)"
  by (simp add: cleanup_def)

lemma toasts_cleanup: "toasts (cleanup st) = toasts st"
  by (simp add: cleanup_def)

lemma distinct_foldl_set_add: "distinct xs \<Longrightarrow> distinct (foldl set_add xs ks)"
  by (induction ks arbitrary: xs) (simp_all add: set_add_def)

lemma set_foldl_set_add: "set (foldl set_add xs ks) = set xs \<union> set ks"
  by (induction ks arbitrary: xs) (auto simp: set_add_def)

lemma foldl_set_add_append:
  "\<exists>new. foldl set_add xs ks = xs @ new \<and> length new \<le> length ks \<and> set ks \<subseteq> set xs \<union> set new"
proof (induction ks arbitrary: xs)
  case Nil
  then show ?case by simp
next
  case (Cons k ks)
  obtain new where n: "foldl set_add (set_add xs k) ks = set_add xs k @ new"
     "length new \<le> length ks" "set ks \<subseteq> set (set_add xs k) \<union> set new"
    using Cons.IH[of "set_add xs k"] by blast
  show ?case
  proof (cases "k \<in> set xs")
    case True
    then have "set_add xs k = xs" by (simp add: set_add_def)
    then show ?thesis using n True by (auto intro!: exI[of _ new])
  next
    case False
    then have "set_add xs k = xs @ [k]" by (simp add: set_add_def)
    then show ?thesis using n by (auto intro!: exI[of _ "k # new"])
  qed
qed

lemma prefix_foldl_set_add: "prefix xs (foldl set_add xs ks)"
  using foldl_set_add_append[of xs ks] by auto

lemma foldl_set_add_fresh:
  "distinct ks \<Longrightarrow> set ks \<inter> set xs = {} \<Longrightarrow> foldl set_add xs ks = xs @ ks"
proof (induction ks arbitrary: xs)
  case Nil
  then show ?case by simp
next
  case (Cons k ks)
  have "set_add xs k = xs @ [k]" using Cons.prems by (simp add: set_add_def)
  then show ?case using Cons.IH[of "xs @ [k]"] Cons.prems by auto
qed

lemma recent_keys_survive:
  assumes "length ks \<le> 100" "k \<in> set ks" "k \<notin> set xs"
  shows "k \<in> set (drop (length (foldl set_add xs ks) - 100) (foldl set_add xs ks))"
proof -
  obtain new where n: "foldl set_add xs ks = xs @ new" "length new \<le> length ks"
      "set ks \<subseteq> set xs \<union> set new"
    using foldl_set_add_append by blast
  have "k \<in> set new" using n(3) assms by auto
  moreover have "length (xs @ new) - 100 \<le> length xs" using n(2) assms(1) by simp
  ultimately show ?thesis unfolding n(1) by simp
qed

lemma forEach_no_keys: "forEach c ns = ([], ts, d) \<Longrightarrow> ts = [] \<and> d"
  by (induction ns) (auto split: handled.splits prod.splits)

lemma checkForUpdates_unchanged: "checkForUpdates c r st = (st', False) \<Longrightarrow> st' = st"
  by (auto simp: checkForUpdates_def split: fetch_result.splits prod.splits dest: forEach_no_keys)

lemma recorded_Json:
  "recorded captured (Json ns) st = foldl set_add (processedIds st) (fst (forEach captured ns))"
  by (simp add: recorded_def checkForUpdates_def split: prod.splits)

lemma recorded_no_data:
  "recorded captured FetchFailed st = processedIds st" "recorded captured NotOk st = processedIds st"
  by (simp_all add: recorded_def checkForUpdates_def)

lemma recorded_superset: "set (processedIds st) \<subseteq> set (recorded captured r st)"
  by (cases r) (auto simp: recorded_Json recorded_no_data set_foldl_set_add)

lemma recorded_distinct: "distinct (processedIds st) \<Longrightarrow> distinct (recorded captured r st)"
  by (cases r) (auto simp: recorded_Json recorded_no_data distinct_foldl_set_add)

lemma recorded_prefix: "prefix (processedIds st) (recorded captured r st)"
  by (cases r) (auto simp: recorded_Json recorded_no_data prefix_foldl_set_add)

lemma fst_effects: "fst (effects st) = cleanup st"
  by (simp add: effects_def cleanup_def)

lemma set_remove_nth: "set (remove_nth i xs) \<subseteq> set xs"
  by (auto simp: remove_nth_def dest: in_set_takeD in_set_dropD)

text \<open>The state after a response, in terms of the keys recorded before the trim.\<close>

lemma step_Response_state:
  assumes "i < length (in_flight c)" "length (processedIds (current c)) \<le> 100"
  shows "processedIds (current (step (Response i r) c))
         = drop (length (recorded (in_flight c ! i) r (current c)) - 100)
                (recorded (in_flight c ! i) r (current c))"
proof -
  obtain st changed where cu: "checkForUpdates (in_flight c ! i) r (current c) = (st, changed)"
    by (cases "checkForUpdates (in_flight c ! i) r (current c)") auto
  have rec: "recorded (in_flight c ! i) r (current c) = processedIds st"
    by (simp add: recorded_def cu)
  show ?thesis
  proof (cases changed)
    case True
    then have "current (step (Response i r) c) = cleanup st"
      using assms(1) cu fst_effects[of st] by (auto simp: step_def split: prod.splits)
    then show ?thesis by (simp add: rec cleanup_drop)
  next
    case False
    then have "st = current c" using checkForUpdates_unchanged[of _ _ _ st] cu by simp
    moreover have "current (step (Response i r) c) = st"
      using assms(1) cu False by (simp add: step_def)
    ultimately show ?thesis using assms(2) by (simp add: rec)
  qed
qed

lemma step_Response_toasts:
  "i < length (in_flight c) \<Longrightarrow>
     toasts (current (step (Response i r) c))
       = toasts (fst (checkForUpdates (in_flight c ! i) r (current c)))"
  by (auto simp: step_def effects_def toasts_cleanup split: prod.splits)

lemma step_other_state:
  "current (step Tick c) = current c"
  "\<not> i < length (in_flight c) \<Longrightarrow> step (Response i r) c = c"
  by (simp_all add: step_def)

lemma step_no_data_state:
  "current (step (Response i FetchFailed) c) = current c"
  "current (step (Response i NotOk) c) = current c"
  by (simp_all add: step_def checkForUpdates_def)

lemma step_le_100:
  assumes "length (processedIds (current c)) \<le> 100"
  shows "length (processedIds (current (step e c))) \<le> 100"
proof (cases e)
  case Tick
  then show ?thesis using assms by (simp add: step_other_state)
next
  case (Response i r)
  show ?thesis
  proof (cases "i < length (in_flight c)")
    case True
    then show ?thesis unfolding Response step_Response_state[OF True assms] by simp
  next
    case False
    then show ?thesis using assms Response by (simp add: step_other_state)
  qed
qed

lemma step_distinct:
  assumes "distinct (processedIds (current c))" "length (processedIds (current c)) \<le> 100"
  shows "distinct (processedIds (current (step e c)))"
proof (cases e)
  case Tick
  then show ?thesis using assms by (simp add: step_other_state)
next
  case (Response i r)
  show ?thesis
  proof (cases "i < length (in_flight c)")
    case True
    then show ?thesis unfolding Response step_Response_state[OF True assms(2)]
      using recorded_distinct[OF assms(1)] by simp
  next
    case False
    then show ?thesis using assms Response by (simp add: step_other_state)
  qed
qed

lemma run_snoc: "run (es @ [e]) = step e (run es)"
  by (simp add: run_def)

lemma run_invariant:
  "length (processedIds (current (run es))) \<le> 100 \<and> distinct (processedIds (current (run es)))"
proof (induction es rule: rev_induct)
  case Nil
  then show ?case by (simp add: run_def mount_def initial_def)
next
  case (snoc e es)
  then show ?case by (simp add: run_snoc step_le_100 step_distinct)
qed


lemma forEach_fresh_keys:
  "\<forall>n \<in> set ns. notifId n \<notin> set c \<and> notif_message n \<noteq> None \<Longrightarrow>
     fst (forEach c ns) = map notifId ns"
  by (induction ns) (auto simp: handle_notification_def split: prod.splits)

lemma recorded_fresh:
  assumes "\<forall>n \<in> set ns. notifId n \<notin> set captured \<and> notifId n \<notin> set (processedIds st)
             \<and> notif_message n \<noteq> None"
    "distinct (map notifId ns)"
  shows "recorded captured (Json ns) st = processedIds st @ map notifId ns"
proof -
  have "fst (forEach captured ns) = map notifId ns" using forEach_fresh_keys[of ns captured] assms(1) by blast
  moreover have "set (map notifId ns) \<inter> set (processedIds st) = {}" using assms(1) by auto
  ultimately show ?thesis using foldl_set_add_fresh[OF assms(2)] by (simp add: recorded_Json)
qed

lemma step_Response_in_flight:
  assumes "i < length (in_flight c)"
  shows "in_flight (step (Response i r) c)
         = remove_nth i (in_flight c) @
           (if snd (checkForUpdates (in_flight c ! i) r (current c))
            then snd (effects (fst (checkForUpdates (in_flight c ! i) r (current c))))
            else [])"
  using assms by (auto simp: step_def split: prod.splits)

lemma changed_Json: "snd (checkForUpdates captured (Json ns) st) \<longleftrightarrow> fst (forEach captured ns) \<noteq> []"
  by (simp add: checkForUpdates_def split: prod.splits)

lemma snd_effects:
  "snd (effects st) = (if length (processedIds st) > 100
      then [processedIds st, drop (length (processedIds st) - 100) (processedIds st)]
      else [processedIds st])"
  by (simp add: effects_def cleanup_def)

lemma step_fresh_in_flight:
  assumes "i < length (in_flight c)" "ns \<noteq> []"
    "\<forall>n \<in> set ns. notifId n \<notin> set (in_flight c ! i) \<and> notifId n \<notin> set (processedIds (current c))
             \<and> notif_message n \<noteq> None"
    "distinct (map notifId ns)"
  shows "in_flight (step (Response i (Json ns)) c)
         = remove_nth i (in_flight c) @
           (let u = processedIds (current c) @ map notifId ns
            in if length u > 100 then [u, drop (length u - 100) u] else [u])"
proof -
  have k: "fst (forEach (in_flight c ! i) ns) = map notifId ns"
    using forEach_fresh_keys[of ns "in_flight c ! i"] assms(3) by blast
  have ch: "snd (checkForUpdates (in_flight c ! i) (Json ns) (current c))"
    using k assms(2) by (simp add: changed_Json)
  have u: "processedIds (fst (checkForUpdates (in_flight c ! i) (Json ns) (current c)))
           = processedIds (current c) @ map notifId ns"
    using recorded_fresh[OF assms(3,4)] by (simp add: recorded_def)
  show ?thesis
    unfolding step_Response_in_flight[OF assms(1)] using ch by (simp add: snd_effects u Let_def)
qed

lemma forEach_all_skipped:
  "\<forall>n \<in> set ns. notifId n \<in> set c \<Longrightarrow> forEach c ns = ([], [], True)"
  by (induction ns) (auto simp: handle_notification_def)

lemma checkForUpdates_all_known:
  "\<forall>n \<in> set ns. notifId n \<in> set captured \<Longrightarrow> checkForUpdates captured (Json ns) st = (st, False)"
  by (simp add: checkForUpdates_def forEach_all_skipped)

lemma step_all_known:
  "i < length (in_flight c) \<Longrightarrow> \<forall>n \<in> set ns. notifId n \<in> set (in_flight c ! i) \<Longrightarrow>
     step (Response i (Json ns)) c = \<lparr>current = current c, in_flight = remove_nth i (in_flight c)\<rparr>"
  by (simp add: step_def checkForUpdates_all_known)

lemma checkForUpdates_skip_known:
  "notifId n \<in> set captured \<Longrightarrow>
     checkForUpdates captured (Json (n # ns)) st = checkForUpdates captured (Json ns) st"
  by (simp add: checkForUpdates_def handle_notification_def)

lemma step_skip_known:
  "i < length (in_flight c) \<Longrightarrow> notifId n \<in> set (in_flight c ! i) \<Longrightarrow>
     step (Response i (Json (n # ns))) c = step (Response i (Json ns)) c"
  by (simp add: step_def checkForUpdates_skip_known)

lemma step_single_fresh_toasts:
  "i < length (in_flight c) \<Longrightarrow> notifId n \<notin> set (in_flight c ! i) \<Longrightarrow> notif_message n = Some m \<Longrightarrow>
     toasts (current (step (Response i (Json [n])) c)) = toasts (current c) @ show_toast n (take 50 m)"
  by (simp add: step_Response_toasts checkForUpdates_def handle_notification_def)

text \<open>
  C3: the set of seen keys is a bounded sliding set. After every step from mounting
  it holds at most 100 keys, without repetition. After the response to a fetch has
  been handled and the trim has run, the set is the last \<open>min 100 (size)\<close> keys, in
  insertion order, of the keys recorded by the handler; these extend the keys held
  before at the end, a new key being appended and a known key keeping its place. So
  when the bound is exceeded the 100 most recently inserted keys are kept and the
  oldest are dropped first: after a response of new notifications with different
  keys the set is the last 100 of the old keys followed by the new ones. A tick
  leaves the set as it is.
\<close>

theorem C3_processedIds_bounded:
  "length (processedIds (current (run es))) \<le> 100
   \<and> distinct (processedIds (current (run es)))
   \<and> (i < length (in_flight (run es)) \<longrightarrow>
        processedIds (current (run (es @ [Response i r])))
          = drop (length (recorded (in_flight (run es) ! i) r (current (run es))) - 100)
                 (recorded (in_flight (run es) ! i) r (current (run es)))
        \<and> suffix (processedIds (current (run (es @ [Response i r]))))
                  (recorded (in_flight (run es) ! i) r (current (run es)))
        \<and> length (processedIds (current (run (es @ [Response i r]))))
            = min 100 (length (recorded (in_flight (run es) ! i) r (current (run es))))
        \<and> prefix (processedIds (current (run es)))
                  (recorded (in_flight (run es) ! i) r (current (run es))))
   \<and> (i < length (in_flight (run es))
        \<and> (\<forall>n \<in> set ns. notifId n \<notin> set (in_flight (run es) ! i)
                \<and> notifId n \<notin> set (processedIds (current (run es))) \<and> notif_message n \<noteq> None)
        \<and> distinct (map notifId ns) \<longrightarrow>
        processedIds (current (run (es @ [Response i (Json ns)])))
          = drop (length (processedIds (current (run es))) + length ns - 100)
                 (processedIds (current (run es)) @ map notifId ns))
   \<and> set (recorded captured (Json ns) st) = set (processedIds st) \<union> set (fst (forEach captured ns))
   \<and> processedIds (current (run (es @ [Tick]))) = processedIds (current (run es))
   \<and> length (processedIds (cleanup st)) = min 100 (length (processedIds st))
   \<and> suffix (processedIds (cleanup st)) (processedIds st)
   \<and> toasts (cleanup st) = toasts st
   \<and> (k \<notin> set prev \<longrightarrow> set_add prev k = prev @ [k])
   \<and> (k \<in> set prev \<longrightarrow> set_add prev k = prev)"
proof -
  let ?c = "run es"
  have inv: "length (processedIds (current ?c)) \<le> 100" "distinct (processedIds (current ?c))"
    using run_invariant[of es] by simp_all
  have a: "processedIds (current (run (es @ [Response i r])))
          = drop (length (recorded (in_flight ?c ! i) r (current ?c)) - 100)
                 (recorded (in_flight ?c ! i) r (current ?c))"
    if "i < length (in_flight ?c)" for r
    using step_Response_state[OF that inv(1)] by (simp add: run_snoc)
  have b: "processedIds (current (run (es @ [Response i (Json ns)])))
          = drop (length (processedIds (current ?c)) + length ns - 100)
                 (processedIds (current ?c) @ map notifId ns)"
    if "i < length (in_flight ?c)"
       "\<forall>n \<in> set ns. notifId n \<notin> set (in_flight ?c ! i)
                \<and> notifId n \<notin> set (processedIds (current ?c)) \<and> notif_message n \<noteq> None"
       "distinct (map notifId ns)"
    using a[OF that(1), of "Json ns"] recorded_fresh[OF that(2,3)] by simp
  have c: "processedIds (current (run (es @ [Tick]))) = processedIds (current ?c)"
    by (simp add: run_snoc step_other_state)
  have d: "set (recorded captured (Json ns) st) = set (processedIds st) \<union> set (fst (forEach captured ns))"
    by (simp add: recorded_Json set_foldl_set_add)
  have e: "length (processedIds (cleanup st)) = min 100 (length (processedIds st))"
       "suffix (processedIds (cleanup st)) (processedIds st)"
    by (simp_all add: cleanup_drop suffix_drop)
  have f: "(k \<notin> set prev \<longrightarrow> set_add prev k = prev @ [k]) \<and> (k \<in> set prev \<longrightarrow> set_add prev k = prev)"
    by (simp add: set_add_def)
  have a': "i < length (in_flight ?c) \<longrightarrow>
        processedIds (current (run (es @ [Response i r])))
          = drop (length (recorded (in_flight ?c ! i) r (current ?c)) - 100)
                 (recorded (in_flight ?c ! i) r (current ?c))
        \<and> suffix (processedIds (current (run (es @ [Response i r]))))
                  (recorded (in_flight ?c ! i) r (current ?c))
        \<and> length (processedIds (current (run (es @ [Response i r]))))
            = min 100 (length (recorded (in_flight ?c ! i) r (current ?c)))
        \<and> prefix (processedIds (current ?c)) (recorded (in_flight ?c ! i) r (current ?c))"
    using a[of r] recorded_prefix[of "current ?c" "in_flight ?c ! i" r] by (auto simp: suffix_drop)
  show ?thesis using inv a' b c d e f toasts_cleanup[of st] by blast
qed


lemma digit_inj:
  "a < 10 \<Longrightarrow> b < 10 \<Longrightarrow> (0x30 + of_nat a :: 16 word) = 0x30 + of_nat b \<Longrightarrow> a = b"
  by (simp add: word_of_nat_eq_iff take_bit_nat_eq_self)

lemma decimal_inj:
  assumes "i div 100 = j div 100" "i div 10 mod 10 = j div 10 mod 10" "i mod 10 = j mod (10::nat)"
  shows "i = j"
proof -
  have "k div 10 div 10 = k div 100" for k :: nat by (simp flip: div_mult2_eq)
  then have "i div 10 div 10 = j div 10 div 10" using assms(1) by metis
  then have "i div 10 = j div 10" using assms(2) by (metis div_mult_mod_eq)
  then show ?thesis using assms(3) by (metis div_mult_mod_eq)
qed

lemma numbered_inj:
  assumes "i < 1000" "j < 1000"
    "notifId (numbered_notification i) = notifId (numbered_notification j)"
  shows "i = j"
proof -
  have "i div 100 < 10" "j div 100 < 10" "i div 10 mod 10 < 10" "j div 10 mod 10 < 10"
      "i mod 10 < 10" "j mod 10 < 10"
    using assms(1,2) by simp_all
  then have "i div 100 = j div 100" "i div 10 mod 10 = j div 10 mod 10" "i mod 10 = j mod 10"
    using assms(3) digit_inj[of "i div 100" "j div 100"]
      digit_inj[of "i div 10 mod 10" "j div 10 mod 10"] digit_inj[of "i mod 10" "j mod 10"]
    by (simp_all add: notifId_def numbered_notification_def)
  then show ?thesis by (rule decimal_inj)
qed

lemma numbered_keys_distinct:
  "m \<le> 1000 \<Longrightarrow> distinct (map notifId (map numbered_notification [l ..< m]))"
proof -
  assume m: "m \<le> 1000"
  have "inj_on (notifId \<circ> numbered_notification) (set [l ..< m])"
    using m by (intro inj_onI) (auto dest!: numbered_inj[rotated 2])
  then show ?thesis by (simp add: distinct_map del: upt_Suc)
qed

lemma numbered_key_outside:
  "i < 1000 \<Longrightarrow> m \<le> 1000 \<Longrightarrow> i < l \<or> m \<le> i \<Longrightarrow>
     notifId (numbered_notification i) \<notin> set (map notifId (map numbered_notification [l ..< m]))"
  by (auto simp del: upt_Suc dest!: numbered_inj[rotated 2])

lemma numbered_message: "notif_message (numbered_notification i) = Some (str ''m'')"
  by (simp add: numbered_notification_def)

lemma mounted: "current (run []) = initial" "in_flight (run []) = [[]]" "processedIds initial = []" "toasts initial = []"
  by (simp_all add: run_def mount_def initial_def)

theorem C3_processedIds_bounded_witness:
  "0 < length (in_flight (run []))
   \<and> processedIds (current (run [Response 0 (Json (map numbered_notification [0 ..< 100]))]))
       = map notifId (map numbered_notification [0 ..< 100])
   \<and> 0 < length (in_flight (run [Response 0 (Json (map numbered_notification [0 ..< 100]))]))
   \<and> processedIds (current (run [Response 0 (Json (map numbered_notification [0 ..< 100])),
                                   Response 0 (Json [numbered_notification 100])]))
       = map notifId (map numbered_notification [1 ..< 101])
   \<and> str ''b'' \<notin> set [str ''a''] \<and> set_add [str ''a''] (str ''b'') = [str ''a''] @ [str ''b'']
   \<and> str ''a'' \<in> set [str ''a''] \<and> set_add [str ''a''] (str ''a'') = [str ''a'']"
proof -
  let ?A = "map numbered_notification [0 ..< 100]"
  let ?e1 = "Response 0 (Json ?A)"
  let ?n = "numbered_notification 100"
  have dA: "distinct (map notifId ?A)" using numbered_keys_distinct[of 100 0] by simp
  have fA: "\<forall>n \<in> set ?A. notifId n \<notin> set (in_flight (run []) ! 0)
              \<and> notifId n \<notin> set (processedIds (current (run []))) \<and> notif_message n \<noteq> None"
    by (auto simp: mounted numbered_message simp del: upt_Suc)
  have i0: "0 < length (in_flight (run []))" by (simp add: mounted)
  have "processedIds (current (run ([] @ [?e1])))
       = drop (length (processedIds (current (run []))) + length ?A - 100)
              (processedIds (current (run [])) @ map notifId ?A)"
    using C3_processedIds_bounded[of "[]" 0 "Json ?A" ?A "[]" initial "str ''b''" "[str ''a'']"] i0 fA dA
    by blast
  then have s1: "processedIds (current (run [?e1])) = map notifId ?A"
    by (simp add: mounted del: upt_Suc)
  have "?A \<noteq> []" by (simp add: upt_conv_Cons del: upt_Suc)
  then have f1: "in_flight (run [?e1]) = [map notifId ?A]"
    using step_fresh_in_flight[of 0 "run []" ?A] i0 fA dA run_snoc[of "[]" ?e1]
    by (simp add: mounted remove_nth_def Let_def del: upt_Suc)
  have out: "notifId ?n \<notin> set (map notifId ?A)" using numbered_key_outside[of 100 100 0] by simp
  have fn: "\<forall>n \<in> set [?n]. notifId n \<notin> set (in_flight (run [?e1]) ! 0)
              \<and> notifId n \<notin> set (processedIds (current (run [?e1]))) \<and> notif_message n \<noteq> None"
    using out by (simp add: f1 s1 numbered_message del: upt_Suc)
  have up: "[0 ..< 100] = 0 # [Suc 0 ..< 100]" by (simp add: upt_conv_Cons del: upt_Suc)
  have "[Suc 0 ..< Suc 100] = [Suc 0 ..< 100] @ [100]" by (rule upt_Suc_append) simp
  then have up2: "[Suc 0 ..< 101] = [Suc 0 ..< 100] @ [100]" by (simp del: upt_Suc)
  have s2: "processedIds (current (run ([?e1] @ [Response 0 (Json [?n])])))
       = drop (length (processedIds (current (run [?e1]))) + length [?n] - 100)
              (processedIds (current (run [?e1])) @ map notifId [?n])"
    using C3_processedIds_bounded[of "[?e1]" 0 "Json [?n]" "[?n]" "[]" initial "str ''a''" "[str ''a'']"]
      fn f1 by force
  have "processedIds (current (run [?e1, Response 0 (Json [?n])]))
       = map notifId (map numbered_notification [1 ..< 101])"
    using s2 unfolding s1 by (simp add: up up2 del: upt_Suc)
  then show ?thesis using s1 f1 i0 by (simp add: set_add_def str_def del: upt_Suc)
qed


subsection \<open>Which notifications produce a toast\<close>

lemma show_toast_quiet: "status n \<notin> toast_statuses \<Longrightarrow> show_toast n m = []"
  by (simp add: show_toast_def toast_statuses_def)

lemma forEach_quiet:
  "\<forall>n \<in> set ns. status n \<notin> toast_statuses \<Longrightarrow> fst (snd (forEach c ns)) = []"
  by (induction ns)
     (auto simp: handle_notification_def show_toast_quiet
           split: handled.splits prod.splits if_splits option.splits)

lemma checkForUpdates_quiet:
  "\<forall>n \<in> set ns. status n \<notin> toast_statuses \<Longrightarrow>
     toasts (fst (checkForUpdates captured (Json ns) st)) = toasts st"
  using forEach_quiet[of ns captured] by (auto simp: checkForUpdates_def split: prod.splits)

lemma step_quiet:
  "\<forall>n \<in> set ns. status n \<notin> toast_statuses \<Longrightarrow>
     toasts (current (step (Response i (Json ns)) c)) = toasts (current c)"
  by (cases "i < length (in_flight c)")
     (simp_all add: step_Response_toasts checkForUpdates_quiet step_other_state)

lemma recorded_single: "notifId n \<notin> set captured \<Longrightarrow> notifId n \<in> set (recorded captured (Json [n]) st)"
  by (auto simp: recorded_Json set_foldl_set_add handle_notification_def split: option.splits)

lemma step_single_key:
  assumes "i < length (in_flight c)" "notifId n \<notin> set (in_flight c ! i)"
    "length (processedIds (current c)) \<le> 100"
  shows "notifId n \<in> set (processedIds (current (step (Response i (Json [n])) c)))"
proof -
  let ?old = "processedIds (current c)"
  have k: "fst (forEach (in_flight c ! i) [n]) = [notifId n]"
    using assms(2) by (auto simp: handle_notification_def split: option.splits)
  have u: "recorded (in_flight c ! i) (Json [n]) (current c) = set_add ?old (notifId n)"
    unfolding recorded_Json k by simp
  show ?thesis
    unfolding step_Response_state[OF assms(1,3)] u using assms(3)
    by (auto simp: set_add_def)
qed

lemma step_single_key_current:
  assumes "i < length (in_flight c)" "in_flight c ! i = processedIds (current c)"
  shows "notifId n \<in> set (processedIds (current (step (Response i (Json [n])) c)))"
  using assms
  by (auto simp: step_def checkForUpdates_def handle_notification_def effects_def cleanup_def
        set_add_def split: option.splits)

text \<open>
  C8: a notification is shown only when its status is \<open>processing\<close>, \<open>called\<close> or
  \<open>failed\<close>. For any other status (\<open>scheduled\<close> or an unknown one) handling it issues
  no toast, whichever keys the callback captured, and a response of such
  notifications leaves the toast log as it was. The key of such a notification is
  still recorded: a key not captured is handed to \<open>setProcessedIds\<close> before the
  \<open>switch\<close>, and it is in the set after the step.
\<close>

theorem C8_toast_only_for_three_statuses:
  "(handle_notification captured n = Marked k ts \<and> ts \<noteq> [] \<longrightarrow> status n \<in> toast_statuses)
   \<and> ((\<forall>m \<in> set ns. status m \<notin> toast_statuses) \<longrightarrow>
        toasts (fst (checkForUpdates captured (Json ns) st)) = toasts st
        \<and> toasts (current (step (Response i (Json ns)) c)) = toasts (current c))
   \<and> (status n \<notin> toast_statuses \<longrightarrow>
        toasts (current (step (Response i (Json [n])) c)) = toasts (current c)
        \<and> (notifId n \<notin> set captured \<longrightarrow> notifId n \<in> set (recorded captured (Json [n]) st))
        \<and> (i < length (in_flight c) \<and> in_flight c ! i = processedIds (current c) \<longrightarrow>
             notifId n \<in> set (processedIds (current (step (Response i (Json [n])) c))))
        \<and> (i < length (in_flight c) \<and> notifId n \<notin> set (in_flight c ! i)
             \<and> length (processedIds (current c)) \<le> 100 \<longrightarrow>
             notifId n \<in> set (processedIds (current (step (Response i (Json [n])) c))))
        \<and> (i < length (in_flight (run es)) \<and> notifId n \<notin> set (in_flight (run es) ! i) \<longrightarrow>
             notifId n \<in> set (processedIds (current (run (es @ [Response i (Json [n])]))))))
   \<and> (status n \<notin> toast_statuses \<and> notifId n \<notin> set captured \<longrightarrow>
        handle_notification captured n = Marked (notifId n) []
        \<or> handle_notification captured n = MarkedThenThrew (notifId n))"
proof -
  have a: "handle_notification captured n = Marked k ts \<and> ts \<noteq> [] \<longrightarrow> status n \<in> toast_statuses"
    using show_toast_quiet[of n]
    by (auto simp: handle_notification_def split: if_splits option.splits)
  have b: "status n \<notin> toast_statuses \<longrightarrow>
        toasts (current (step (Response i (Json [n])) c)) = toasts (current c)"
    using step_quiet[of "[n]" i c] by simp
  have d: "status n \<notin> toast_statuses \<and> notifId n \<notin> set captured \<longrightarrow>
        handle_notification captured n = Marked (notifId n) []
        \<or> handle_notification captured n = MarkedThenThrew (notifId n)"
    by (auto simp: handle_notification_def show_toast_quiet split: option.splits)
  have e: "i < length (in_flight (run es)) \<and> notifId n \<notin> set (in_flight (run es) ! i) \<longrightarrow>
             notifId n \<in> set (processedIds (current (run (es @ [Response i (Json [n])]))))"
    using step_single_key[of i "run es" n] run_invariant[of es] by (simp add: run_snoc)
  show ?thesis
    using a b d e checkForUpdates_quiet[of ns captured st] step_quiet[of ns i c]
      recorded_single[of n captured st] step_single_key[of i c n] step_single_key_current[of i c n]
    by blast
qed

theorem C8_toast_only_for_three_statuses_witness:
  "status (example_notification ''42'' ''scheduled'') \<notin> toast_statuses
   \<and> 0 < length (in_flight (run []))
   \<and> notifId (example_notification ''42'' ''scheduled'') \<notin> set (in_flight (run []) ! 0)
   \<and> toasts (current (step (Response 0 (Json [example_notification ''42'' ''scheduled''])) (run [])))
       = toasts (current (run []))
   \<and> notifId (example_notification ''42'' ''scheduled'')
        \<in> set (processedIds (current (run ([] @ [Response 0 (Json [example_notification ''42'' ''scheduled''])]))))
   \<and> status (example_notification ''42'' ''paused'') \<notin> toast_statuses
   \<and> (handle_notification [] (example_notification ''42'' ''paused'')
        = Marked (notifId (example_notification ''42'' ''paused'')) []
       \<or> handle_notification [] (example_notification ''42'' ''paused'')
        = MarkedThenThrew (notifId (example_notification ''42'' ''paused'')))
   \<and> handle_notification [] (example_notification ''42'' ''failed'')
      = Marked (notifId (example_notification ''42'' ''failed''))
          [ToastError (str ''42'') (str ''Take your pill'')]
   \<and> status (example_notification ''42'' ''failed'') \<in> toast_statuses"
proof -
  let ?s = "example_notification ''42'' ''scheduled''"
  let ?p = "example_notification ''42'' ''paused''"
  let ?f = "example_notification ''42'' ''failed''"
  have h1: "status ?s \<notin> toast_statuses" "status ?p \<notin> toast_statuses"
    by (simp_all add: toast_statuses_def example_notification_def str_def)
  have h2: "0 < length (in_flight (run []))" "notifId ?s \<notin> set (in_flight (run []) ! 0)"
    "notifId ?p \<notin> set []"
    by (simp_all add: mounted)
  have h3: "handle_notification [] ?f = Marked (notifId ?f) [ToastError (str ''42'') (str ''Take your pill'')]"
    "[ToastError (str ''42'') (str ''Take your pill'')] \<noteq> []"
    by (simp_all add: handle_notification_def show_toast_def example_notification_def str_def)
  have "toasts (current (step (Response 0 (Json [?s])) (run []))) = toasts (current (run []))
      \<and> notifId ?s \<in> set (processedIds (current (run ([] @ [Response 0 (Json [?s])]))))"
    using C8_toast_only_for_three_statuses [of "[]" ?s "notifId ?s" "[]" "[?s]" initial 0 "run []" "[]"]
      h1(1) h2(1,2) by blast
  moreover have "handle_notification [] ?p = Marked (notifId ?p) []
      \<or> handle_notification [] ?p = MarkedThenThrew (notifId ?p)"
    using C8_toast_only_for_three_statuses [of "[]" ?p "notifId ?p" "[]" "[]" initial 0 "run []" "[]"]
      h1(2) h2(3) by blast
  moreover have "status ?f \<in> toast_statuses"
    using C8_toast_only_for_three_statuses [of "[]" ?f "notifId ?f"
        "[ToastError (str ''42'') (str ''Take your pill'')]" "[]" initial 0 "run []" "[]"] h3
    by blast
  ultimately show ?thesis using h1 h2 h3 by blast
qed


subsection \<open>Suppression of repeated notifications\<close>

lemma forEach_length: "forEach c ns = (ks, ts, d) \<Longrightarrow> length ks \<le> length ns"
  by (induction ns arbitrary: ks ts d) (auto split: handled.splits prod.splits)

lemma forEach_marks_all:
  "forEach c ns = (ks, ts, d) \<Longrightarrow> \<forall>n \<in> set ns. notif_message n \<noteq> None \<Longrightarrow>
     n \<in> set ns \<Longrightarrow> notifId n \<notin> set c \<Longrightarrow> notifId n \<in> set ks"
  by (induction ns arbitrary: ks ts d)
     (auto simp: handle_notification_def split: handled.splits prod.splits if_splits option.splits)

lemma recorded_marks:
  assumes "\<forall>m \<in> set ns. notif_message m \<noteq> None" "n \<in> set ns" "notifId n \<notin> set captured"
  shows "notifId n \<in> set (recorded captured (Json ns) st)"
proof -
  obtain ks ts d where f: "forEach captured ns = (ks, ts, d)" by (cases "forEach captured ns") auto
  show ?thesis using forEach_marks_all[OF f assms] by (simp add: recorded_Json f set_foldl_set_add)
qed

lemma recorded_recent:
  assumes "\<forall>m \<in> set ns. notif_message m \<noteq> None" "n \<in> set ns" "notifId n \<notin> set captured"
    "length ns \<le> 100" "notifId n \<notin> set (processedIds st)"
  shows "notifId n \<in> set (drop (length (recorded captured (Json ns) st) - 100)
                              (recorded captured (Json ns) st))"
proof -
  obtain ks ts d where f: "forEach captured ns = (ks, ts, d)" by (cases "forEach captured ns") auto
  have k: "notifId n \<in> set ks" using forEach_marks_all[OF f assms(1,2,3)] .
  have l: "length ks \<le> 100" using forEach_length[OF f] assms(4) by simp
  show ?thesis using recent_keys_survive[OF l k assms(5)] by (simp add: recorded_Json f)
qed

lemma step_keeps:
  assumes "i < length (in_flight c)"
    "k \<in> set (drop (length (recorded (in_flight c ! i) r (current c)) - 100)
                    (recorded (in_flight c ! i) r (current c)))"
  shows "k \<in> set (processedIds (current (step (Response i r) c)))
         \<and> (\<forall>cap \<in> set (in_flight (step (Response i r) c)). cap \<in> set (in_flight c) \<or> k \<in> set cap)"
proof -
  obtain st changed where cu: "checkForUpdates (in_flight c ! i) r (current c) = (st, changed)"
    by (cases "checkForUpdates (in_flight c ! i) r (current c)") auto
  have rec: "recorded (in_flight c ! i) r (current c) = processedIds st"
    by (simp add: recorded_def cu)
  have ku: "k \<in> set (processedIds st)" using assms(2) unfolding rec by (rule in_set_dropD)
  have old: "\<forall>cap \<in> set (remove_nth i (in_flight c)). cap \<in> set (in_flight c)"
    using set_remove_nth[of i "in_flight c"] by blast
  show ?thesis
  proof (cases changed)
    case True
    have "current (step (Response i r) c) = cleanup st"
      using assms(1) cu True fst_effects[of st] by (auto simp: step_def split: prod.splits)
    moreover have "in_flight (step (Response i r) c) = remove_nth i (in_flight c) @ snd (effects st)"
      using step_Response_in_flight[OF assms(1), of r] cu True by simp
    ultimately show ?thesis using assms(2) ku old unfolding rec
      by (auto simp: cleanup_drop snd_effects)
  next
    case False
    have "step (Response i r) c = \<lparr>current = st, in_flight = remove_nth i (in_flight c)\<rparr>"
      using assms(1) cu False by (simp add: step_def)
    then show ?thesis using ku old by simp
  qed
qed

lemma tick_keeps:
  "k \<in> set (processedIds (current c)) \<Longrightarrow>
     k \<in> set (processedIds (current (step Tick c)))
     \<and> (\<forall>cap \<in> set (in_flight (step Tick c)). cap \<in> set (in_flight c) \<or> k \<in> set cap)"
  by (auto simp: step_def)

lemma split_at_separator:
  "d \<notin> set a \<Longrightarrow> d \<notin> set a' \<Longrightarrow> a @ d # r = a' @ d # r' \<Longrightarrow> a = a' \<and> r = r'"
proof (induction a arbitrary: a')
  case Nil
  then show ?case by (cases a') auto
next
  case (Cons x a)
  then show ?case by (cases a') auto
qed

lemma notifId_inj:
  assumes "0x2D \<notin> set (status a) \<union> set (status b)"
    "length (reminder_id a) = length (reminder_id b)
     \<or> 0x2D \<notin> set (reminder_id a) \<union> set (reminder_id b)"
  shows "notifId a = notifId b \<longleftrightarrow>
         reminder_id a = reminder_id b \<and> status a = status b \<and> updated_at a = updated_at b"
proof
  assume e: "notifId a = notifId b"
  have s: "str ''-'' = [0x2D]" by (simp add: str_def)
  from e have e1: "reminder_id a @ 0x2D # (status a @ 0x2D # updated_at a)
                 = reminder_id b @ 0x2D # (status b @ 0x2D # updated_at b)"
    by (simp add: notifId_def s)
  have "reminder_id a = reminder_id b
        \<and> status a @ 0x2D # updated_at a = status b @ 0x2D # updated_at b"
  proof (cases "length (reminder_id a) = length (reminder_id b)")
    case True
    then show ?thesis using e1 by simp
  next
    case False
    then show ?thesis using split_at_separator[OF _ _ e1] assms(2) by auto
  qed
  then show "reminder_id a = reminder_id b \<and> status a = status b \<and> updated_at a = updated_at b"
    using split_at_separator[of "0x2D" "status a" "status b" "updated_at a" "updated_at b"] assms(1)
    by auto
next
  assume "reminder_id a = reminder_id b \<and> status a = status b \<and> updated_at a = updated_at b"
  then show "notifId a = notifId b" by (simp add: notifId_def)
qed

text \<open>
  A notification is shown, then delivered again (and skipped) together with 100 new
  ones; the trim drops its key. The response to the fetch sent before the trim
  still skips it; the response to the fetch sent after the trim shows it again.
\<close>

lemma eviction_scenario:
  assumes B: "length B = 100" "distinct (map notifId B)"
    "\<forall>n \<in> set B. notifId n \<noteq> notifId n0 \<and> notif_message n \<noteq> None"
    and m: "notif_message n0 = Some m"
  shows "toasts (current (run [Response 0 (Json [n0])])) = show_toast n0 (take 50 m)
    \<and> toasts (current (run [Response 0 (Json [n0]), Response 0 (Json (n0 # B)),
                              Response 0 (Json [n0])]))
       = toasts (current (run [Response 0 (Json [n0]), Response 0 (Json (n0 # B))]))
    \<and> toasts (current (run [Response 0 (Json [n0]), Response 0 (Json (n0 # B)),
                              Response 0 (Json [n0]), Response 0 (Json [n0])]))
       = toasts (current (run [Response 0 (Json [n0]), Response 0 (Json (n0 # B))]))
         @ show_toast n0 (take 50 m)"
proof -
  let ?k0 = "notifId n0"
  let ?K = "map notifId B"
  let ?e1 = "Response 0 (Json [n0])"
  let ?e2 = "Response 0 (Json (n0 # B))"
  let ?c1 = "run [?e1]"
  let ?c2 = "run [?e1, ?e2]"
  let ?c3 = "run [?e1, ?e2, ?e1]"
  have out: "?k0 \<notin> set ?K" using B(3) by auto
  have ne: "B \<noteq> []" using B(1) by auto
  have c1: "?c1 = step ?e1 (run [])" using run_snoc[of "[]" ?e1] by simp
  have f1: "\<forall>n \<in> set [n0]. notifId n \<notin> set (in_flight (run []) ! 0)
              \<and> notifId n \<notin> set (processedIds (current (run []))) \<and> notif_message n \<noteq> None"
    by (simp add: mounted m)
  have s1: "processedIds (current ?c1) = [?k0]"
    using step_Response_state[of 0 "run []" "Json [n0]"] recorded_fresh[OF f1]
    by (simp add: c1 mounted)
  have i1: "in_flight ?c1 = [[?k0]]"
    using step_fresh_in_flight[of 0 "run []" "[n0]"] f1
    by (simp add: c1 mounted remove_nth_def Let_def)
  have t1: "toasts (current ?c1) = show_toast n0 (take 50 m)"
    using step_single_fresh_toasts[of 0 "run []" n0 m]
    by (simp add: c1 mounted m)
  have "?c2 = step ?e2 ?c1" using run_snoc[of "[?e1]" ?e2] by simp
  then have c2: "?c2 = step (Response 0 (Json B)) ?c1"
    using step_skip_known[of 0 ?c1 n0 B] by (simp add: i1)
  have f2: "\<forall>n \<in> set B. notifId n \<notin> set (in_flight ?c1 ! 0)
              \<and> notifId n \<notin> set (processedIds (current ?c1)) \<and> notif_message n \<noteq> None"
    using B(3) by (simp add: i1 s1)
  have s2: "processedIds (current ?c2) = ?K"
    using step_Response_state[of 0 ?c1 "Json B"] recorded_fresh[OF f2 B(2)] B(1)
    by (simp add: c2 i1 s1)
  have i2: "in_flight ?c2 = [?k0 # ?K, ?K]"
    using step_fresh_in_flight[of 0 ?c1 B] f2 B(1,2) ne
    by (simp add: c2 i1 s1 remove_nth_def Let_def)
  have "?c3 = step ?e1 ?c2" using run_snoc[of "[?e1, ?e2]" ?e1] by simp
  then have c3: "?c3 = \<lparr>current = current ?c2, in_flight = [?K]\<rparr>"
    using step_all_known[of 0 ?c2 "[n0]"] by (simp add: i2 remove_nth_def)
  have "run [?e1, ?e2, ?e1, ?e1] = step ?e1 ?c3" using run_snoc[of "[?e1, ?e2, ?e1]" ?e1] by simp
  moreover have "toasts (current (step ?e1 ?c3)) = toasts (current ?c3) @ show_toast n0 (take 50 m)"
    using step_single_fresh_toasts[of 0 ?c3 n0 m] out m by (simp add: c3)
  ultimately show ?thesis using t1 c3 by simp
qed

text \<open>
  C2, as stated: in every sequence of notifications, two with the same triple produce
  at most one toast. It fails, by the bound on the set of keys. Reminder \<open>000\<close> is
  delivered and shown. The next response delivers it again, where it is skipped,
  together with 100 new notifications \<open>001\<close> to \<open>100\<close>: the set then has 101 keys, a
  fetch is sent, the trim drops the oldest key, that of \<open>000\<close>, and another fetch is
  sent. The response to the first of these fetches still skips \<open>000\<close>; the response
  to the second, whose callback captured the trimmed set, shows it a second time.
\<close>

theorem C2_evicted_key_shown_again:
  "toasts (current (run [Response 0 (Json [numbered_notification 0])]))
     = [ToastError (str ''000'') (str ''m'')]
   \<and> toasts (current (run [Response 0 (Json [numbered_notification 0]),
                  Response 0 (Json (numbered_notification 0 # map numbered_notification [1 ..< 101])),
                  Response 0 (Json [numbered_notification 0])]))
     = toasts (current (run [Response 0 (Json [numbered_notification 0]),
                  Response 0 (Json (numbered_notification 0 # map numbered_notification [1 ..< 101]))]))
   \<and> toasts (current (run [Response 0 (Json [numbered_notification 0]),
                  Response 0 (Json (numbered_notification 0 # map numbered_notification [1 ..< 101])),
                  Response 0 (Json [numbered_notification 0]),
                  Response 0 (Json [numbered_notification 0])]))
     = toasts (current (run [Response 0 (Json [numbered_notification 0]),
                  Response 0 (Json (numbered_notification 0 # map numbered_notification [1 ..< 101]))]))
       @ [ToastError (str ''000'') (str ''m'')]"
proof -
  let ?B = "map numbered_notification [1 ..< 101]"
  have sh: "show_toast (numbered_notification 0) (take 50 (str ''m''))
            = [ToastError (str ''000'') (str ''m'')]"
    by (simp add: show_toast_def numbered_notification_def str_def)
  have "length ?B = 100" by simp
  moreover have "distinct (map notifId ?B)" using numbered_keys_distinct[of 101 1] by simp
  moreover have "\<forall>n \<in> set ?B. notifId n \<noteq> notifId (numbered_notification 0) \<and> notif_message n \<noteq> None"
    by (auto simp: numbered_message simp del: upt_Suc dest!: numbered_inj[rotated 2])
  ultimately show ?thesis
    using eviction_scenario[of ?B "numbered_notification 0" "str ''m''"] numbered_message[of 0]
    unfolding sh by blast
qed


text \<open>
  Two more ways to two toasts for one triple, apart from the bound. The check reads
  the keys the callback captured, and \<open>setProcessedIds\<close> does not change them: a
  response that holds the same notification twice shows it twice, and so do the
  responses to two fetches that were both sent before the key was recorded.
\<close>

lemma repeated_in_one_response_shown_twice:
  "toasts (current (run [Response 0 (Json [example_notification ''42'' ''failed'',
                                             example_notification ''42'' ''failed''])]))
     = [ToastError (str ''42'') (str ''Take your pill''), ToastError (str ''42'') (str ''Take your pill'')]"
  using run_snoc[of "[]" "Response 0 (Json [example_notification ''42'' ''failed'',
                                             example_notification ''42'' ''failed''])"]
  by (simp add: step_Response_toasts mounted checkForUpdates_def handle_notification_def
        example_notification_def show_toast_def str_def notifId_def)

lemma overlapping_fetches_show_twice:
  "toasts (current (run [Tick, Response 0 (Json [example_notification ''42'' ''failed'']),
                         Response 0 (Json [example_notification ''42'' ''failed''])]))
     = [ToastError (str ''42'') (str ''Take your pill''), ToastError (str ''42'') (str ''Take your pill'')]"
  by (simp add: run_def mount_def initial_def step_def checkForUpdates_def handle_notification_def
        effects_def cleanup_def set_add_def remove_nth_def
        example_notification_def show_toast_def str_def notifId_def)

text \<open>
  C2, amended: suppression is keyed by the string \<open>reminder_id-status-updated_at\<close> and
  decided against the keys captured by the callback that handles the response. A
  notification whose key is captured is skipped and one whose key is not captured
  is not skipped; a response whose keys are all captured changes nothing. The key
  of a notification that is handled and not skipped is recorded in the set (when no
  notification of the response lacks a message), and it is among the last 100 keys
  when it is new to the set and the response has at most 100 notifications. A key
  among the last 100 recorded stays in the set over the step, and over a tick, and
  every fetch sent from then on captures it, so that the responses to those fetches
  skip the notification; only the trim, which drops the oldest keys, ends this.
  Two notifications whose statuses contain no \<open>-\<close>, and whose reminder ids have the
  same length or contain no \<open>-\<close>, have the same key only when their triples are the
  same.
\<close>

theorem C2_duplicate_suppression:
  "(notifId n \<in> set captured \<longrightarrow> handle_notification captured n = Skipped)
   \<and> (notifId n \<notin> set captured \<longrightarrow> handle_notification captured n \<noteq> Skipped)
   \<and> ((\<forall>m \<in> set ns. notifId m \<in> set captured) \<longrightarrow>
        checkForUpdates captured (Json ns) st = (st, False))
   \<and> (i < length (in_flight c) \<and> (\<forall>m \<in> set ns. notifId m \<in> set (in_flight c ! i)) \<longrightarrow>
        current (step (Response i (Json ns)) c) = current c)
   \<and> ((\<forall>m \<in> set ns. notif_message m \<noteq> None) \<and> n \<in> set ns \<and> notifId n \<notin> set captured \<longrightarrow>
        notifId n \<in> set (recorded captured (Json ns) st)
        \<and> (length ns \<le> 100 \<and> notifId n \<notin> set (processedIds st) \<longrightarrow>
             notifId n \<in> set (drop (length (recorded captured (Json ns) st) - 100)
                                    (recorded captured (Json ns) st))))
   \<and> set (processedIds st) \<subseteq> set (recorded captured r st)
   \<and> (i < length (in_flight c)
        \<and> k \<in> set (drop (length (recorded (in_flight c ! i) r (current c)) - 100)
                         (recorded (in_flight c ! i) r (current c))) \<longrightarrow>
        k \<in> set (processedIds (current (step (Response i r) c)))
        \<and> (\<forall>cap \<in> set (in_flight (step (Response i r) c)). cap \<in> set (in_flight c) \<or> k \<in> set cap))
   \<and> (k \<in> set (processedIds (current c)) \<longrightarrow>
        k \<in> set (processedIds (current (step Tick c)))
        \<and> (\<forall>cap \<in> set (in_flight (step Tick c)). cap \<in> set (in_flight c) \<or> k \<in> set cap))
   \<and> (0x2D \<notin> set (status a) \<union> set (status b)
        \<and> (length (reminder_id a) = length (reminder_id b)
            \<or> 0x2D \<notin> set (reminder_id a) \<union> set (reminder_id b)) \<longrightarrow>
        (notifId a = notifId b \<longleftrightarrow>
           reminder_id a = reminder_id b \<and> status a = status b \<and> updated_at a = updated_at b))"
proof -
  have p1: "notifId n \<in> set captured \<longrightarrow> handle_notification captured n = Skipped"
    by (simp add: handle_notification_def)
  have p2: "notifId n \<notin> set captured \<longrightarrow> handle_notification captured n \<noteq> Skipped"
    by (simp add: handle_notification_def split: option.splits)
  have p4: "i < length (in_flight c) \<and> (\<forall>m \<in> set ns. notifId m \<in> set (in_flight c ! i)) \<longrightarrow>
        current (step (Response i (Json ns)) c) = current c"
    using step_all_known[of i c ns] by simp
  show ?thesis
    using p1 p2 p4 checkForUpdates_all_known[of ns captured st]
      recorded_marks[of ns n captured st] recorded_recent[of ns n captured st]
      recorded_superset[of st captured r] step_keeps[of i c k r] tick_keeps[of k c]
      notifId_inj[of a b]
    by blast
qed


theorem C2_duplicate_suppression_witness:
  "0 < length (in_flight (run []))
   \<and> notifId (example_notification ''123e4567-e89b-12d3-a456-426614174000'' ''called'')
        \<notin> set (in_flight (run []) ! 0)
   \<and> notif_message (example_notification ''123e4567-e89b-12d3-a456-426614174000'' ''called'') \<noteq> None
   \<and> notifId (example_notification ''123e4567-e89b-12d3-a456-426614174000'' ''called'')
        \<in> set (processedIds (current (step (Response 0
              (Json [example_notification ''123e4567-e89b-12d3-a456-426614174000'' ''called'']))
              (run []))))
   \<and> handle_notification
        (processedIds (current (step (Response 0
              (Json [example_notification ''123e4567-e89b-12d3-a456-426614174000'' ''called'']))
              (run []))))
        (example_notification ''123e4567-e89b-12d3-a456-426614174000'' ''called'') = Skipped
   \<and> 0x2D \<notin> set (status (example_notification ''123e4567-e89b-12d3-a456-426614174000'' ''called''))
   \<and> length (reminder_id (example_notification ''123e4567-e89b-12d3-a456-426614174000'' ''called''))
       = length (reminder_id (example_notification ''123e4567-e89b-12d3-a456-426614174001'' ''called''))
   \<and> notifId (example_notification ''123e4567-e89b-12d3-a456-426614174000'' ''called'')
       \<noteq> notifId (example_notification ''123e4567-e89b-12d3-a456-426614174001'' ''called'')"
proof -
  let ?a = "example_notification ''123e4567-e89b-12d3-a456-426614174000'' ''called''"
  let ?b = "example_notification ''123e4567-e89b-12d3-a456-426614174001'' ''called''"
  let ?c' = "step (Response 0 (Json [?a])) (run [])"
  have h: "0 < length (in_flight (run []))" "notifId ?a \<notin> set (in_flight (run []) ! 0)"
      "notifId ?a \<notin> set (processedIds (current (run [])))"
      "\<forall>m \<in> set [?a]. notif_message m \<noteq> None" "?a \<in> set [?a]" "length [?a] \<le> 100"
    by (simp_all add: mounted example_notification_def)
  have g: "0x2D \<notin> set (status ?a) \<union> set (status ?b)"
      "length (reminder_id ?a) = length (reminder_id ?b)"
      "reminder_id ?a \<noteq> reminder_id ?b"
    by (simp_all add: example_notification_def str_def)
  have r: "notifId ?a \<in> set (drop (length (recorded (in_flight (run []) ! 0) (Json [?a]) (current (run []))) - 100)
                                   (recorded (in_flight (run []) ! 0) (Json [?a]) (current (run []))))"
    using C2_duplicate_suppression [where n = ?a and captured = "in_flight (run []) ! 0"
        and ns = "[?a]" and st = "current (run [])" and i = 0 and c = "run []" and r = "Json [?a]"
        and k = "notifId ?a" and a = ?a and b = ?b] h
    by blast
  have k: "notifId ?a \<in> set (processedIds (current ?c'))"
    using C2_duplicate_suppression [where n = ?a and captured = "in_flight (run []) ! 0"
        and ns = "[?a]" and st = "current (run [])" and i = 0 and c = "run []" and r = "Json [?a]"
        and k = "notifId ?a" and a = ?a and b = ?b] h(1) r
    by blast
  have s: "handle_notification (processedIds (current ?c')) ?a = Skipped"
    using C2_duplicate_suppression [where n = ?a and captured = "processedIds (current ?c')"
        and ns = "[?a]" and st = "current (run [])" and i = 0 and c = "run []" and r = "Json [?a]"
        and k = "notifId ?a" and a = ?a and b = ?b] k
    by blast
  have d: "notifId ?a \<noteq> notifId ?b"
    using C2_duplicate_suppression [where n = ?a and captured = "in_flight (run []) ! 0"
        and ns = "[?a]" and st = "current (run [])" and i = 0 and c = "run []" and r = "Json [?a]"
        and k = "notifId ?a" and a = ?a and b = ?b] g
    by blast
  show ?thesis using h g k s d by (simp add: example_notification_def)
qed

subsection \<open>Polling period and requested window\<close>



section \<open>Properties of StatusBadge\<close>

lemma StatusBadge_known:
  "config s = Some c \<Longrightarrow>
     StatusBadge s = Inr \<lparr>span_class = className c, badge_icon = icon c,
                          icon_spins = (s = str ''processing''), badge_label = label c\<rparr>"
  by (auto simp: StatusBadge_def config_get_def)

lemma StatusBadge_fallback:
  "config s = None \<Longrightarrow> s \<notin> set object_prototype_keys \<Longrightarrow>
     StatusBadge s = Inr \<lparr>span_class = ''status-scheduled'', badge_icon = Clock,
                          icon_spins = False, badge_label = ''Scheduled''\<rparr>"
  by (auto simp: StatusBadge_def config_get_def config_def split: if_splits)

lemma StatusBadge_inherited:
  "config s = None \<Longrightarrow> s \<in> set object_prototype_keys \<Longrightarrow> StatusBadge s = Inl ElementTypeInvalid"
  by (simp add: StatusBadge_def config_get_def)

text \<open>
  C9 says that every status outside the four known ones falls back to the
  \<open>Scheduled\<close> badge, so that rendering never fails. The status \<open>constructor\<close> is
  not one of the four, yet \<open>config[status]\<close> finds \<open>Object.prototype.constructor\<close>,
  which is truthy: the fallback is not taken, \<open>Icon\<close> is undefined and rendering
  throws. The same holds for every property name of \<open>Object.prototype\<close>.
\<close>

theorem C9_constructor_status_fails:
  "config (str ''constructor'') = None
   \<and> config_get (str ''constructor'') = Inherited (str ''constructor'')
   \<and> StatusBadge (str ''constructor'') = Inl ElementTypeInvalid"
  by (simp add: StatusBadge_def config_get_def config_def object_prototype_keys_def str_def)

section \<open>Properties of the success rate\<close>

lemma round_half_even_error: "\<bar>of_int (round_half_even y) - y\<bar> \<le> 1/2"
proof -
  have "of_int \<lfloor>y\<rfloor> \<le> y" "y < of_int \<lfloor>y\<rfloor> + 1" by linarith+
  then show ?thesis by (auto simp: round_half_even_def Let_def)
qed

lemma int_pow2_rat: "0 \<le> b \<Longrightarrow> (of_int (2 ^ nat b) :: rat) = 2 powi b"
  by (simp add: power_int_def)

lemma binade_le:
  assumes "0 < x"
  shows "2 powi (binade x) \<le> x"
proof -
  obtain p q where pq: "quotient_of x = (p, q)" by (cases "quotient_of x") auto
  have q: "0 < q" using quotient_of_denom_pos[OF pq] .
  have x: "x = of_int p / of_int q" using quotient_of_div[OF pq] .
  have p: "0 < p" using assms q x by (simp add: zero_less_divide_iff)
  let ?k = "bitlen p - bitlen q"
  have bp: "1 \<le> bitlen p" using p bitlen_eq_zero_iff[of p] bitlen_nonneg[of p] by linarith
  have bq: "1 \<le> bitlen q" using q bitlen_eq_zero_iff[of q] bitlen_nonneg[of q] by linarith
  have "2 ^ nat (bitlen p - 1) \<le> p" using bitlen_bounds[OF p] by simp
  then have "(of_int (2 ^ nat (bitlen p - 1)) :: rat) \<le> of_int p" by (simp only: of_int_le_iff)
  moreover have "(of_int (2 ^ nat (bitlen p - 1)) :: rat) = 2 powi (bitlen p - 1)"
    using bp by (intro int_pow2_rat) simp
  ultimately have lo: "(2::rat) powi (bitlen p - 1) \<le> of_int p" by (simp only:)
  have "q < 2 ^ nat (bitlen q)" using bitlen_bounds[OF q] by simp
  then have "(of_int q :: rat) < of_int (2 ^ nat (bitlen q))" by (simp only: of_int_less_iff)
  moreover have "(of_int (2 ^ nat (bitlen q)) :: rat) = 2 powi (bitlen q)"
    using bq by (intro int_pow2_rat) simp
  ultimately have hi: "(of_int q :: rat) \<le> 2 powi (bitlen q)" by (simp only: less_imp_le)
  have "(2::rat) powi (?k - 1) = 2 powi (bitlen p - 1) / 2 powi (bitlen q)"
    using power_int_diff[of "2::rat" "bitlen p - 1" "bitlen q"] by (simp add: algebra_simps)
  also have "\<dots> \<le> of_int p / 2 powi (bitlen q)"
    using lo by (simp add: divide_right_mono)
  also have "\<dots> \<le> of_int p / of_int q"
    using hi p q by (simp add: divide_left_mono)
  finally have k1: "(2::rat) powi (?k - 1) \<le> x" using x by simp
  show ?thesis using k1 by (simp add: binade_def pq Let_def)
qed

lemma fl_error:
  assumes "0 < x"
  shows "\<bar>fl x - x\<bar> \<le> x / 2 ^ 53"
proof -
  let ?e = "binade x - 52"
  let ?s = "(2::rat) powi ?e"
  let ?R = "round_half_even (x / ?s)"
  have s: "0 < ?s" by simp
  have f: "fl x = of_int ?R * ?s" using assms by (simp add: fl_def Let_def)
  have "fl x - x = (of_int ?R - x / ?s) * ?s"
    using s by (simp add: f left_diff_distrib)
  then have "\<bar>fl x - x\<bar> = \<bar>of_int ?R - x / ?s\<bar> * ?s"
    using s by (simp only: abs_mult abs_of_pos)
  also have "\<dots> \<le> 1/2 * ?s"
    using round_half_even_error[of "x / ?s"] s by (intro mult_right_mono) auto
  also have "\<dots> = 2 powi (binade x) / 2 ^ 53"
    using power_int_diff[of "2::rat" "binade x" 53] power_int_diff[of "2::rat" "binade x" 52] by simp
  also have "\<dots> \<le> x / 2 ^ 53" using binade_le[OF assms] by (simp add: divide_right_mono)
  finally show ?thesis .
qed

lemma fl_0: "fl 0 = 0" by (simp add: fl_def)

lemma fl_error0: "0 \<le> x \<Longrightarrow> \<bar>fl x - x\<bar> \<le> x / 2 ^ 53"
  using fl_error[of x] by (cases "x = 0") (auto simp: fl_0)

lemma product_error:
  assumes "0 \<le> q" "q \<le> 1"
  shows "\<bar>fl (fl q * 100) - 100 * q\<bar> \<le> 1 / 2 ^ 44"
proof -
  have a: "\<bar>fl q - q\<bar> \<le> q / 2 ^ 53" using fl_error0[OF assms(1)] .
  have "q / 2 ^ 53 \<le> q" using assms(1) by (simp add: field_simps)
  then have q1: "0 \<le> fl q" "fl q \<le> 2" using a assms by linarith+
  have b: "\<bar>fl (fl q * 100) - fl q * 100\<bar> \<le> fl q * 100 / 2 ^ 53"
    using fl_error0[of "fl q * 100"] q1 by simp
  have "\<bar>z - 100 * w\<bar> \<le> \<bar>z - y * 100\<bar> + 100 * \<bar>y - w\<bar>" for z y w :: rat
    by (simp add: abs_if)
  then have "\<bar>fl (fl q * 100) - 100 * q\<bar> \<le> \<bar>fl (fl q * 100) - fl q * 100\<bar> + 100 * \<bar>fl q - q\<bar>"
    by blast
  also have "\<dots> \<le> 200 / 2 ^ 53 + 100 / 2 ^ 53"
    using a b q1 assms by (auto simp: field_simps) 
  also have "\<dots> \<le> 1 / 2 ^ 44" by simp
  finally show ?thesis .
qed


lemma Math_round_bounds: "x - 1/2 < of_int (Math_round x) \<and> of_int (Math_round x) \<le> x + 1/2"
  unfolding Math_round_def by linarith

lemma Math_round_mono: "x \<le> y \<Longrightarrow> Math_round x \<le> Math_round y"
  by (simp add: Math_round_def floor_mono)

lemma round_within:
  assumes "\<bar>p - r\<bar> \<le> 1 / 2 ^ 44" "0 \<le> r" "r \<le> 100"
  shows "0 \<le> Math_round p \<and> Math_round p \<le> 100
         \<and> \<bar>of_int (Math_round p) - r\<bar> \<le> 1/2 + 1 / 2 ^ 44
         \<and> (Math_round (r - 1 / 2 ^ 44) = Math_round (r + 1 / 2 ^ 44) \<longrightarrow> Math_round p = Math_round r)"
proof -
  define d :: rat where "d = 1 / 2 ^ 44"
  have d: "0 \<le> d" "d < 1/2" by (simp_all add: d_def)
  have e: "r - d \<le> p" "p \<le> r + d" using assms(1) unfolding d_def[symmetric] by linarith+
  have m: "p - 1/2 < of_int (Math_round p)" "of_int (Math_round p) \<le> p + 1/2"
    using Math_round_bounds[of p] by simp_all
  have "- 1 < (of_int (Math_round p) :: rat)" using m(1) e d assms by linarith
  then have b1: "0 \<le> Math_round p" by linarith
  have "(of_int (Math_round p) :: rat) < 101" using m(2) e d assms by linarith
  then have b2: "Math_round p \<le> 100" by linarith
  have b3: "\<bar>of_int (Math_round p) - r\<bar> \<le> 1/2 + d" using m e by linarith
  have b4: "Math_round p = Math_round r" if t: "Math_round (r - d) = Math_round (r + d)"
  proof -
    have "Math_round (r - d) \<le> Math_round p" "Math_round p \<le> Math_round (r + d)"
      using e by (simp_all add: Math_round_mono)
    moreover have "Math_round (r - d) \<le> Math_round r" "Math_round r \<le> Math_round (r + d)"
      using d by (simp_all add: Math_round_mono)
    ultimately show ?thesis using t by linarith
  qed
  show ?thesis using b1 b2 b3 b4 unfolding d_def by blast
qed

text \<open>
  C10, as stated: with a positive total the display is \<open>round(100 * called / total)\<close>.
  It fails in double arithmetic: for 23 called of 40 the quotient \<open>23 / 40\<close> rounds
  to a double just below 0.575, its product with 100 to 57.49999999999999, and the
  display is 57, while \<open>100 * 23 / 40\<close> is 57.5 and rounds to 58.
\<close>

theorem C10_double_rounding_shows_57:
  "fst (success_rate (Some \<lparr>total_stats = 40, called = 23\<rparr>)) = 57
   \<and> Math_round (100 * 23 / 40) = 58"
  by code_simp

text \<open>
  C10, amended: the computation is division-safe. When \<open>stats\<close> is absent or its total
  is not above 0 the display is 0 and nothing is divided; otherwise there is one
  division, by the total, which is above 0, and the display is \<open>Math.round\<close> of the
  double product \<open>(called / total) * 100\<close>. No division by 0 is ever evaluated. For
  \<open>0 \<le> called \<le> total\<close> the display is between 0 and 100, differs from
  \<open>100 * called / total\<close> by at most \<open>1/2 + 2^-44\<close>, and equals
  \<open>round(100 * called / total)\<close> unless that value is within \<open>2^-44\<close> of a tie.
\<close>

theorem C10_success_rate_division_safe:
  "((s = None \<or> (\<exists>st. s = Some st \<and> total_stats st \<le> 0)) \<longrightarrow> success_rate s = (0, []))
   \<and> (s = Some st \<and> 0 < total_stats st \<longrightarrow>
        success_rate s = (Math_round (fl (fl (called st / total_stats st) * 100)), [total_stats st]))
   \<and> 0 \<notin> set (snd (success_rate s))
   \<and> (s = Some st \<and> 0 < total_stats st \<and> 0 \<le> called st \<and> called st \<le> total_stats st \<longrightarrow>
        0 \<le> fst (success_rate s) \<and> fst (success_rate s) \<le> 100
        \<and> \<bar>of_int (fst (success_rate s)) - 100 * called st / total_stats st\<bar> \<le> 1/2 + 1 / 2 ^ 44
        \<and> (Math_round (100 * called st / total_stats st - 1 / 2 ^ 44)
             = Math_round (100 * called st / total_stats st + 1 / 2 ^ 44) \<longrightarrow>
            fst (success_rate s) = Math_round (100 * called st / total_stats st)))"
proof -
  have a: "(s = None \<or> (\<exists>st. s = Some st \<and> total_stats st \<le> 0)) \<longrightarrow> success_rate s = (0, [])"
    by (auto simp: success_rate_def)
  have b: "s = Some st \<and> 0 < total_stats st \<longrightarrow>
        success_rate s = (Math_round (fl (fl (called st / total_stats st) * 100)), [total_stats st])"
    by (auto simp: success_rate_def)
  have c: "0 \<notin> set (snd (success_rate s))"
    by (auto simp: success_rate_def split: option.splits)
  have d: "0 \<le> fst (success_rate s) \<and> fst (success_rate s) \<le> 100
        \<and> \<bar>of_int (fst (success_rate s)) - 100 * called st / total_stats st\<bar> \<le> 1/2 + 1 / 2 ^ 44
        \<and> (Math_round (100 * called st / total_stats st - 1 / 2 ^ 44)
             = Math_round (100 * called st / total_stats st + 1 / 2 ^ 44) \<longrightarrow>
            fst (success_rate s) = Math_round (100 * called st / total_stats st))"
    if h: "s = Some st" "0 < total_stats st" "0 \<le> called st" "called st \<le> total_stats st"
  proof -
    let ?q = "called st / total_stats st"
    have q: "0 \<le> ?q" "?q \<le> 1" using h by simp_all
    have r: "0 \<le> 100 * ?q" "100 * ?q \<le> 100" using q by simp_all
    have e: "\<bar>fl (fl ?q * 100) - 100 * ?q\<bar> \<le> 1 / 2 ^ 44" using product_error[OF q] .
    have f: "fst (success_rate s) = Math_round (fl (fl ?q * 100))" using h by (simp add: success_rate_def)
    have g: "100 * called st / total_stats st = 100 * ?q" by simp
    show ?thesis unfolding f g using round_within[OF e r] by blast
  qed
  show ?thesis using a b c d by blast
qed

theorem C10_success_rate_division_safe_witness:
  "Some \<lparr>total_stats = 4, called = 1\<rparr> = Some \<lparr>total_stats = 4, called = 1\<rparr> \<and> (0::rat) < 4 \<and> (0::rat) \<le> 1 \<and> (1::rat) \<le> 4
   \<and> fst (success_rate (Some \<lparr>total_stats = 4, called = 1\<rparr>)) \<le> 100
   \<and> snd (success_rate (Some \<lparr>total_stats = 4, called = 1\<rparr>)) = [4]
   \<and> success_rate None = (0, [])
   \<and> success_rate (Some \<lparr>total_stats = 0, called = 0\<rparr>) = (0, [])"
  using C10_success_rate_division_safe [of "Some \<lparr>total_stats = 4, called = 1\<rparr>" "\<lparr>total_stats = 4, called = 1\<rparr>"]
    C10_success_rate_division_safe [of None "\<lparr>total_stats = 4, called = 1\<rparr>"]
    C10_success_rate_division_safe [of "Some \<lparr>total_stats = 0, called = 0\<rparr>" "\<lparr>total_stats = 0, called = 0\<rparr>"]
  by auto


section \<open>Properties of the claim\<close>

lemma claim_other: "claim rid' s = (s', ok) \<Longrightarrow> rid' \<noteq> rid \<Longrightarrow> s' rid = s rid"
  by (auto simp: claim_def split: option.splits if_splits)

lemma claim_not_claimable: "claim rid' s = (s', ok) \<Longrightarrow> \<not> claimable s rid \<Longrightarrow> \<not> claimable s' rid"
  by (auto simp: claim_def claimable_def split: option.splits if_splits)

lemma claim_ok_iff: "claim rid s = (s', ok) \<Longrightarrow> ok = claimable s rid"
  by (auto simp: claim_def claimable_def split: option.splits if_splits)

lemma claim_makes_unclaimable: "claim rid s = (s', ok) \<Longrightarrow> \<not> claimable s' rid"
  by (auto simp: claim_def claimable_def split: option.splits if_splits)

lemma no_success_when_unclaimable:
  "\<not> claimable s rid \<Longrightarrow> outcomes rid True rids s = 0"
proof (induction rids arbitrary: s)
  case Nil
  then show ?case by (simp add: outcomes_def)
next
  case (Cons a rids)
  obtain s' ok where c: "claim a s = (s', ok)" by (cases "claim a s") auto
  have n: "\<not> claimable s' rid" using claim_not_claimable[OF c Cons.prems] .
  have "a = rid \<Longrightarrow> \<not> ok" using claim_ok_iff[OF c] Cons.prems by simp
  then show ?case using Cons.IH[OF n] c
    by (auto simp: outcomes_def split: prod.splits)
qed

lemma one_success_when_claimable:
  "claimable s rid \<Longrightarrow> rid \<in> set rids \<Longrightarrow> outcomes rid True rids s = 1"
proof (induction rids arbitrary: s)
  case Nil
  then show ?case by simp
next
  case (Cons a rids)
  obtain s' ok where c: "claim a s = (s', ok)" by (cases "claim a s") auto
  show ?case
  proof (cases "a = rid")
    case True
    have "ok" using claim_ok_iff[OF c] True Cons.prems(1) by simp
    moreover have "\<not> claimable s' rid" using claim_makes_unclaimable[OF c] True by simp
    ultimately show ?thesis using no_success_when_unclaimable[of s' rid rids] c True
      by (auto simp: outcomes_def split: prod.splits)
  next
    case False
    have "s' rid = s rid" using claim_other[OF c False] .
    then have "claimable s' rid" using Cons.prems(1) by (simp add: claimable_def)
    moreover have "rid \<in> set rids" using Cons.prems(2) False by simp
    ultimately show ?thesis using Cons.IH[of s'] c False
      by (auto simp: outcomes_def split: prod.splits)
  qed
qed

lemma outcomes_total:
  "outcomes rid True rids s + outcomes rid False rids s = count_list rids rid"
proof (induction rids arbitrary: s)
  case Nil
  then show ?case by (simp add: outcomes_def)
next
  case (Cons a rids)
  obtain s' ok where c: "claim a s = (s', ok)" by (cases "claim a s") auto
  show ?case using Cons.IH[of s'] c
    by (auto simp: outcomes_def split: prod.splits)
qed

lemma claim_unclaimable_same: "claim rid s = (s', ok) \<Longrightarrow> \<not> claimable s rid \<Longrightarrow> s' = s"
  by (auto simp: claim_def claimable_def split: option.splits if_splits)

lemma claims_unclaimable_same:
  "\<not> claimable s rid \<Longrightarrow> fst (claims rids s) rid = s rid"
proof (induction rids arbitrary: s)
  case Nil
  then show ?case by simp
next
  case (Cons a rids)
  obtain s' ok where c: "claim a s = (s', ok)" by (cases "claim a s") auto
  have n: "\<not> claimable s' rid" using claim_not_claimable[OF c Cons.prems] .
  have "s' rid = s rid"
    using claim_other[OF c, of rid] claim_unclaimable_same[OF c] Cons.prems by (cases "a = rid") auto
  then show ?case using Cons.IH[OF n] c by (auto split: prod.splits)
qed

lemma claims_final_status:
  "s rid = Some r \<Longrightarrow> rem_status r = Scheduled \<Longrightarrow> rid \<in> set rids \<Longrightarrow>
    fst (claims rids s) rid = Some (r\<lparr>rem_status := Processing\<rparr>)"
proof (induction rids arbitrary: s)
  case Nil
  then show ?case by simp
next
  case (Cons a rids)
  obtain s' ok where c: "claim a s = (s', ok)" by (cases "claim a s") auto
  show ?case
  proof (cases "a = rid")
    case True
    have s': "s' rid = Some (r\<lparr>rem_status := Processing\<rparr>)"
      using c True Cons.prems(1,2) by (auto simp: claim_def)
    have "\<not> claimable s' rid" using claim_makes_unclaimable[OF c] True by simp
    then show ?thesis using claims_unclaimable_same[of s' rid rids] s' c by (auto split: prod.splits)
  next
    case False
    have "s' rid = Some r" using claim_other[OF c False] Cons.prems(1) by simp
    moreover have "rid \<in> set rids" using Cons.prems(3) False by simp
    ultimately show ?thesis using Cons.IH[of s'] Cons.prems(2) c by (auto split: prod.splits)
  qed
qed

text \<open>
  C1: for a reminder that is due (scheduled, with \<open>scheduled_at\<close> not after now), in
  every interleaving of claim attempts that has at least one attempt on it, also
  among attempts on other reminders, exactly one attempt on it succeeds and all the
  others on it fail; the reminder ends in status \<open>processing\<close>. With \<open>N\<close> attempts on
  the reminder, \<open>N - 1\<close> fail.
\<close>

theorem C1_exactly_one_claim_succeeds:
  "s rid = Some r \<and> due now r \<and> rid \<in> set rids \<longrightarrow>
     outcomes rid True rids s = 1 \<and> outcomes rid False rids s = count_list rids rid - 1
     \<and> fst (claims rids s) rid = Some (r\<lparr>rem_status := Processing\<rparr>)"
  using one_success_when_claimable[of s rid rids] outcomes_total[of rid rids s]
    claims_final_status[of s rid r rids]
  by (auto simp: claimable_def due_def)

theorem C1_exactly_one_claim_succeeds_witness:
  "example_store 7 = Some \<lparr>rem_status = Scheduled, scheduled_at = 10\<rparr>
   \<and> due 20 \<lparr>rem_status = Scheduled, scheduled_at = 10\<rparr> \<and> (7::nat) \<in> set [7, 3, 7, 7]
   \<and> outcomes 7 True [7, 3, 7, 7] example_store = 1
   \<and> outcomes 7 False [7, 3, 7, 7] example_store = 2
   \<and> snd (claims [7, 3, 7, 7] example_store) = [True, False, False, False]"
  using C1_exactly_one_claim_succeeds [of example_store 7 "\<lparr>rem_status = Scheduled, scheduled_at = 10\<rparr>" 20 "[7, 3, 7, 7]"]
  by (simp add: due_def claim_def example_store_def outcomes_def)

end
